theory Spec2Isabelle
  imports Complex_Main
begin

section \<open>The persisted ledger (db.js)\<close>

text \<open>
  The table \<open>donations\<close> is a list of rows in rowid order. Only the columns that the
  scheduler and the credit bookkeeping read or write are kept: \<open>id\<close> (here
  \<open>row_id\<close>, since \<open>id\<close> is the identity function of HOL), \<open>intent_id\<close>,
  \<open>credits_total\<close>, \<open>credits_used\<close>, \<open>credits_pulsed\<close>, \<open>status\<close> and
  \<open>created_at\<close>. The timestamp \<open>created_at\<close> is an ISO string in the source, compared
  as text by \<open>ORDER BY\<close>; it is a number of milliseconds here, which orders the same way.
  The column \<open>updated_at\<close> is written by every statement and read by none, and is left out
  together with the name, the e-mail address, the amounts and the payment identifier.
\<close>

datatype status = Created | Waiting | Active | Done

record donation =
  row_id :: nat
  intent_id :: "string option"
  credits_total :: int
  credits_used :: int
  credits_pulsed :: int
  status :: status
  created_at :: nat

type_synonym table = "donation list"

text \<open>\<open>UPDATE donations SET ... WHERE ...\<close>: every row that satisfies the condition is rewritten.\<close>

definition update_where :: "(donation \<Rightarrow> bool) \<Rightarrow> (donation \<Rightarrow> donation) \<Rightarrow> table \<Rightarrow> table" where
  "update_where P f rows = map (\<lambda>r. if P r then f r else r) rows"

definition getDonationById :: "nat \<Rightarrow> table \<Rightarrow> donation option" where
  "getDonationById i rows = find (\<lambda>r. row_id r = i) rows"

definition markIntentPaid :: "string \<Rightarrow> int \<Rightarrow> nat \<Rightarrow> table \<Rightarrow> table" where
  "markIntentPaid intentId creditsTotal t rows =
     update_where (\<lambda>r. intent_id r = Some intentId)
       (\<lambda>r. r\<lparr>credits_total := creditsTotal, status := Waiting, created_at := t\<rparr>) rows"

definition setDonationStatus :: "nat \<Rightarrow> status \<Rightarrow> table \<Rightarrow> table" where
  "setDonationStatus i st rows = update_where (\<lambda>r. row_id r = i) (\<lambda>r. r\<lparr>status := st\<rparr>) rows"

definition requeueToEnd :: "nat \<Rightarrow> nat \<Rightarrow> table \<Rightarrow> table" where
  "requeueToEnd i t rows =
     update_where (\<lambda>r. row_id r = i) (\<lambda>r. r\<lparr>status := Waiting, created_at := t\<rparr>) rows"

definition markCreditsPulsed :: "nat \<Rightarrow> table \<Rightarrow> table" where
  "markCreditsPulsed i rows = update_where (\<lambda>r. row_id r = i) (\<lambda>r. r\<lparr>credits_pulsed := 1\<rparr>) rows"

definition useOneCredit :: "nat \<Rightarrow> table \<Rightarrow> table" where
  "useOneCredit i rows =
     update_where (\<lambda>r. row_id r = i)
       (\<lambda>r. r\<lparr>credits_used :=
                (if credits_used r + 1 > credits_total r then credits_total r
                 else credits_used r + 1)\<rparr>) rows"

text \<open>
  \<open>ORDER BY created_at ASC\<close>: SQLite leaves the order of equal keys open; the model keeps
  rowid order among them (a stable sort).
\<close>

definition listQueue :: "table \<Rightarrow> donation list" where
  "listQueue rows =
     sort_key created_at (filter (\<lambda>r. status r = Waiting \<or> status r = Active) rows)"

text \<open>
  The credit columns are 64-bit \<open>INTEGER\<close>s, and the statements above compute on them in
  SQL, exactly. The three administrative operations below compute in JavaScript, where every
  number is an IEEE 754 double: an integer is a double only if it fits into 53 significant
  bits. \<open>js_number n\<close> is the double nearest to the integer \<open>n\<close>, ties going to the even
  significand: it is what the driver hands to JavaScript for a column value \<open>n\<close>, and what
  \<open>+\<close> returns for two integer-valued doubles whose exact sum is \<open>n\<close>. \<open>js_shift m\<close> is
  the number of low bits that \<open>m\<close> loses. (Magnitudes from \<open>2 ^ 1024\<close> on, which are
  \<open>Infinity\<close> in JavaScript, are outside this model.)
\<close>

function js_shift :: "nat \<Rightarrow> nat" where
  "js_shift m = (if m < 2 ^ 53 then 0 else Suc (js_shift (m div 2)))"
  by pat_completeness auto

termination js_shift
  by (relation "measure (\<lambda>m. m)") auto

declare js_shift.simps [simp del]

definition js_number :: "int \<Rightarrow> int" where
  "js_number n =
     (let m = nat \<bar>n\<bar>;
          e = js_shift m;
          q = m div 2 ^ e;
          r = m mod 2 ^ e;
          q' = (if 2 * r > 2 ^ e \<or> (2 * r = 2 ^ e \<and> odd q) then q + 1 else q)
      in sgn n * int (q' * 2 ^ e))"

text \<open>
  The administrative credit operations return the row as re-read after the update, or
  \<open>null\<close> (here \<open>None\<close>) when the row does not exist. The arguments \<open>delta\<close>,
  \<open>creditsTotal\<close> and \<open>creditsUsed\<close> are JavaScript numbers in the source; the model
  takes the integer-valued ones, that is the integers \<open>n\<close> with \<open>js_number n = n\<close>.
\<close>

definition adjustCredits :: "nat \<Rightarrow> int \<Rightarrow> table \<Rightarrow> table \<times> donation option" where
  "adjustCredits i delta rows =
     (case getDonationById i rows of
        None \<Rightarrow> (rows, None)
      | Some row \<Rightarrow>
          (let nextTotal = max 0 (js_number (js_number (credits_total row) + delta));
               clampedTotal = max nextTotal (js_number (credits_used row));
               rows' = update_where (\<lambda>r. row_id r = i) (\<lambda>r. r\<lparr>credits_total := clampedTotal\<rparr>) rows
           in (rows', getDonationById i rows')))"

definition setCreditsTotal :: "nat \<Rightarrow> int \<Rightarrow> table \<Rightarrow> table \<times> donation option" where
  "setCreditsTotal i creditsTotal rows =
     (case getDonationById i rows of
        None \<Rightarrow> (rows, None)
      | Some row \<Rightarrow>
          (let nextTotal = max 0 creditsTotal;
               clampedTotal = max nextTotal (js_number (credits_used row));
               rows' = update_where (\<lambda>r. row_id r = i) (\<lambda>r. r\<lparr>credits_total := clampedTotal\<rparr>) rows
           in (rows', getDonationById i rows')))"

definition setCreditsUsed :: "nat \<Rightarrow> int \<Rightarrow> table \<Rightarrow> table \<times> donation option" where
  "setCreditsUsed i creditsUsed rows =
     (case getDonationById i rows of
        None \<Rightarrow> (rows, None)
      | Some row \<Rightarrow>
          (let nextUsed = max 0 (min creditsUsed (js_number (credits_total row)));
               rows' = update_where (\<lambda>r. row_id r = i) (\<lambda>r. r\<lparr>credits_used := nextUsed\<rparr>) rows
           in (rows', getDonationById i rows')))"

definition deleteDonationById :: "nat \<Rightarrow> table \<Rightarrow> table" where
  "deleteDonationById i rows = filter (\<lambda>r. row_id r \<noteq> i) rows"

definition deleteAllDonations :: "table \<Rightarrow> table" where
  "deleteAllDonations rows = []"

section \<open>The session scheduler (game.js)\<close>

text \<open>
  The scheduler reads the credit columns as JavaScript numbers and takes the difference
  \<open>credits_total - credits_used\<close>; the model takes it on the integers, which is the same
  as long as the credits are below \<open>2 ^ 53\<close> in magnitude.
\<close>

definition CREDIT_MS :: nat where "CREDIT_MS = 35 * 1000"
definition FIRST_MOVE_MS :: nat where "FIRST_MOVE_MS = 15 * 1000"
definition GRAB_FINISH_MS :: nat where "GRAB_FINISH_MS = 7 * 1000"

text \<open>
  The module variable \<open>active\<close> is \<open>null\<close> or one object with these fields; the two timer
  fields hold the handle returned by \<open>setTimeout\<close>, or \<open>null\<close>.
\<close>

record session =
  donationId :: nat
  creditsRemaining :: int
  timer :: "nat option"
  timerStarted :: bool
  creditEndsAt :: "nat option"
  firstMoveDeadline :: nat
  firstMoveTimer :: "nat option"
  hasMoved :: bool
  grabUsed :: bool
  creditSeq :: nat
  creditConsumed :: bool

text \<open>
  The four closures that the module passes to \<open>setTimeout\<close>. The credit-expiry closure of
  \<open>startCreditTimerIfNeeded\<close> and the grab-finish closure of \<open>handleGrabIfAllowed\<close> capture
  \<open>mySeq\<close>; the first-move closure and the credit-pulse closure capture nothing of the
  session.
\<close>

datatype callback = CreditPulse | FirstMoveTimeout | CreditExpiry nat | GrabFinish nat

record pending_timer =
  handle :: nat
  due :: nat
  run :: callback

text \<open>
  What leaves the process: pulses and the safety stop of the actuator (gpio.js), and the
  events handed to \<open>safeTrigger\<close>, which never throws. The \<open>queue-update\<close> payload lists,
  per queued row, id, remaining credits, status and position.
\<close>

datatype effect =
    GpioPulse string nat
  | GpioReleaseAll
  | QueueUpdate "nat option" "nat option" "nat option" "(nat \<times> int \<times> status \<times> nat) list"
  | PlayerStart nat int nat
  | CreditStart nat "nat option" int
  | PlayerTimeout nat string
  | PlayerEnd nat

text \<open>
  The whole process state: the table, the session, the timers that are set and have neither
  fired nor been cleared, the next timer handle, the clock read by \<open>Date.now()\<close> (it stands
  still during one handler) and the effects so far, oldest first.
\<close>

record state =
  db :: table
  active :: "session option"
  timers :: "pending_timer list"
  next_handle :: nat
  now :: nat
  trace :: "effect list"

definition setTimeout :: "callback \<Rightarrow> nat \<Rightarrow> state \<Rightarrow> nat \<times> state" where
  "setTimeout cb delay s =
     (next_handle s,
      s\<lparr>timers := timers s @ [\<lparr>handle = next_handle s, due = now s + delay, run = cb\<rparr>],
        next_handle := Suc (next_handle s)\<rparr>)"

definition clearTimeout :: "nat \<Rightarrow> state \<Rightarrow> state" where
  "clearTimeout h s = s\<lparr>timers := filter (\<lambda>t. handle t \<noteq> h) (timers s)\<rparr>"

text \<open>\<open>if (x) clearTimeout(x)\<close> for a field that holds a handle or \<open>null\<close>.\<close>

definition clearIfSet :: "nat option \<Rightarrow> state \<Rightarrow> state" where
  "clearIfSet x s = (case x of None \<Rightarrow> s | Some h \<Rightarrow> clearTimeout h s)"

definition emit :: "effect \<Rightarrow> state \<Rightarrow> state" where
  "emit e s = s\<lparr>trace := trace s @ [e]\<rparr>"

definition recoverAfterRestart :: "table \<Rightarrow> table" where
  "recoverAfterRestart rows =
     (let rows1 = fold (\<lambda>a acc. setDonationStatus (row_id a) Waiting acc)
                    (filter (\<lambda>r. status r = Active) rows) rows
      in fold (\<lambda>w acc. if credits_total w - credits_used w \<le> 0
                        then setDonationStatus (row_id w) Done acc else acc)
           (filter (\<lambda>r. status r = Waiting) rows1) rows1)"

text \<open>
  Ids start at 1 and deadlines are positive, so \<open>x || null\<close> in the payload is \<open>x\<close>
  whenever the session exists.
\<close>

definition broadcastQueue :: "state \<Rightarrow> state" where
  "broadcastQueue s =
     emit (QueueUpdate
             (map_option donationId (active s))
             (Option.bind (active s) creditEndsAt)
             (map_option firstMoveDeadline (active s))
             (map (\<lambda>(idx, d). (row_id d, credits_total d - credits_used d, status d, idx + 1))
                (enumerate 0 (listQueue (db s))))) s"

definition scheduleFirstMoveTimeout :: "state \<Rightarrow> state" where
  "scheduleFirstMoveTimeout s =
     (case active s of
        None \<Rightarrow> s
      | Some a \<Rightarrow>
          (let s1 = clearIfSet (firstMoveTimer a) s;
               (h, s2) = setTimeout FirstMoveTimeout FIRST_MOVE_MS s1
           in s2\<lparr>active := Some (a\<lparr>firstMoveDeadline := now s + FIRST_MOVE_MS,
                                    firstMoveTimer := Some h\<rparr>)\<rparr>))"

text \<open>The first loop of \<open>maybeStartNext\<close>, over the queue as read before the loop.\<close>

definition maybeStartNext_cleanup :: "table \<Rightarrow> table" where
  "maybeStartNext_cleanup rows =
     fold (\<lambda>q acc. if status q = Waiting \<and> credits_total q - credits_used q \<le> 0
                    then setDonationStatus (row_id q) Done acc else acc)
       (listQueue rows) rows"

text \<open>The pulse loop: \<open>setTimeout(() => gpio.pulse('credit', 200), i * 400)\<close> for each \<open>i\<close>.\<close>

definition schedule_pulses :: "nat \<Rightarrow> state \<Rightarrow> state" where
  "schedule_pulses n s = fold (\<lambda>i acc. snd (setTimeout CreditPulse (i * 400) acc)) [0..<n] s"

text \<open>The rest of \<open>maybeStartNext\<close> once \<open>next\<close> is chosen and has credits left.\<close>

definition maybeStartNext_activate :: "donation \<Rightarrow> state \<Rightarrow> state" where
  "maybeStartNext_activate next s =
     (let creditsRemaining = credits_total next - credits_used next;
          s1 = s\<lparr>active := Some \<lparr>donationId = row_id next, creditsRemaining = creditsRemaining,
                                  timer = None, timerStarted = False, creditEndsAt = None,
                                  firstMoveDeadline = now s + FIRST_MOVE_MS, firstMoveTimer = None,
                                  hasMoved = False, grabUsed = False, creditSeq = 0,
                                  creditConsumed = False\<rparr>\<rparr>;
          s2 = s1\<lparr>db := setDonationStatus (row_id next) Active (db s1)\<rparr>;
          s3 = (if credits_pulsed next = 0 \<and> creditsRemaining > 0
                then (let p = schedule_pulses (nat creditsRemaining) s2
                      in p\<lparr>db := markCreditsPulsed (row_id next) (db p)\<rparr>)
                else s2);
          s4 = broadcastQueue (scheduleFirstMoveTimeout s3)
      in case active s4 of
           None \<Rightarrow> s4
         | Some a \<Rightarrow> emit (PlayerStart (row_id next) creditsRemaining (firstMoveDeadline a)) s4)"

function maybeStartNext :: "state \<Rightarrow> state" where
  "maybeStartNext s =
     (case active s of
        Some a \<Rightarrow> s
      | None \<Rightarrow>
          (case find (\<lambda>q. status q = Waiting) (listQueue (maybeStartNext_cleanup (db s))) of
             None \<Rightarrow> broadcastQueue (s\<lparr>db := maybeStartNext_cleanup (db s)\<rparr>)
           | Some next \<Rightarrow>
               if credits_total next - credits_used next \<le> 0
               then maybeStartNext
                      (s\<lparr>db := setDonationStatus (row_id next) Done (maybeStartNext_cleanup (db s))\<rparr>)
               else maybeStartNext_activate next (s\<lparr>db := maybeStartNext_cleanup (db s)\<rparr>)))"
  by pat_completeness auto

text \<open>
  Termination: the recursive call comes after \<open>next\<close>, a waiting row of the queue, has
  been marked done, so the table has one waiting row fewer.
\<close>

definition waiting_count :: "table \<Rightarrow> nat" where
  "waiting_count rows = length (filter (\<lambda>r. status r = Waiting) rows)"

lemma waiting_count_done_le:
  "waiting_count (setDonationStatus i Done rows) \<le> waiting_count rows"
  unfolding waiting_count_def setDonationStatus_def update_where_def
  by (induction rows) auto

lemma waiting_count_done_less:
  assumes "r \<in> set rows" and "status r = Waiting" and "row_id r = i"
  shows "waiting_count (setDonationStatus i Done rows) < waiting_count rows"
  using assms
proof (induction rows)
  case Nil
  then show ?case by simp
next
  case (Cons x xs)
  have le: "waiting_count (setDonationStatus i Done xs) \<le> waiting_count xs"
    by (rule waiting_count_done_le)
  show ?case
  proof (cases "x = r")
    case True
    with Cons.prems le show ?thesis
      by (simp add: waiting_count_def setDonationStatus_def update_where_def)
  next
    case False
    with Cons have "waiting_count (setDonationStatus i Done xs) < waiting_count xs"
      by simp
    then show ?thesis
      by (simp add: waiting_count_def setDonationStatus_def update_where_def)
  qed
qed

lemma waiting_count_cleanup_fold:
  "waiting_count (fold (\<lambda>q acc. if status q = Waiting \<and> credits_total q - credits_used q \<le> 0
                                 then setDonationStatus (row_id q) Done acc else acc) qs rows)
   \<le> waiting_count rows"
proof (induction qs arbitrary: rows)
  case Nil
  then show ?case by simp
next
  case (Cons q qs)
  show ?case
    using Cons.IH [of "setDonationStatus (row_id q) Done rows"] Cons.IH [of rows]
      waiting_count_done_le [of "row_id q" rows]
    by auto
qed

lemma waiting_count_cleanup: "waiting_count (maybeStartNext_cleanup rows) \<le> waiting_count rows"
  unfolding maybeStartNext_cleanup_def by (rule waiting_count_cleanup_fold)

lemma find_SomeD: "find P xs = Some x \<Longrightarrow> x \<in> set xs \<and> P x"
  by (induction xs) (auto split: if_splits)

lemma set_listQueue:
  "set (listQueue rows) = {r \<in> set rows. status r = Waiting \<or> status r = Active}"
  by (auto simp: listQueue_def)

lemma find_waiting_in_table:
  assumes "find (\<lambda>q. status q = Waiting) (listQueue rows) = Some nxt"
  shows "nxt \<in> set rows \<and> status nxt = Waiting"
  using find_SomeD [OF assms] by (simp add: set_listQueue)

termination maybeStartNext
proof (relation "measure (\<lambda>s. waiting_count (db s))")
  show "wf (measure (\<lambda>s. waiting_count (db s)))" by simp
next
  fix s :: state and nxt :: donation
  assume f: "find (\<lambda>q. status q = Waiting) (listQueue (maybeStartNext_cleanup (db s))) = Some nxt"
  have "waiting_count (setDonationStatus (row_id nxt) Done (maybeStartNext_cleanup (db s)))
        < waiting_count (maybeStartNext_cleanup (db s))"
    using find_waiting_in_table [OF f] by (intro waiting_count_done_less [of nxt]) simp_all
  also have "\<dots> \<le> waiting_count (db s)" by (rule waiting_count_cleanup)
  finally show "(s\<lparr>db := setDonationStatus (row_id nxt) Done (maybeStartNext_cleanup (db s))\<rparr>, s)
        \<in> measure (\<lambda>s. waiting_count (db s))"
    by simp
qed

declare maybeStartNext.simps [simp del]

text \<open>
  The same function with its call depth counted: each call, the outermost included, takes
  one unit of fuel, and \<open>None\<close> says that the fuel ran out.
\<close>

fun maybeStartNext_fuel :: "nat \<Rightarrow> state \<Rightarrow> state option" where
  "maybeStartNext_fuel 0 s = None"
| "maybeStartNext_fuel (Suc n) s =
     (case active s of
        Some a \<Rightarrow> Some s
      | None \<Rightarrow>
          (case find (\<lambda>q. status q = Waiting) (listQueue (maybeStartNext_cleanup (db s))) of
             None \<Rightarrow> Some (broadcastQueue (s\<lparr>db := maybeStartNext_cleanup (db s)\<rparr>))
           | Some next \<Rightarrow>
               if credits_total next - credits_used next \<le> 0
               then maybeStartNext_fuel n
                      (s\<lparr>db := setDonationStatus (row_id next) Done (maybeStartNext_cleanup (db s))\<rparr>)
               else Some (maybeStartNext_activate next (s\<lparr>db := maybeStartNext_cleanup (db s)\<rparr>))))"

text \<open>How many credit pulses the activation of a row schedules.\<close>

definition pulses_due :: "donation \<Rightarrow> nat" where
  "pulses_due nxt = (if credits_pulsed nxt = 0 \<and> credits_total nxt - credits_used nxt > 0
                     then nat (credits_total nxt - credits_used nxt) else 0)"


definition endActivePlayer :: "state \<Rightarrow> state" where
  "endActivePlayer s =
     (case active s of
        None \<Rightarrow> s
      | Some a \<Rightarrow>
          (let s1 = clearIfSet (timer a) s;
               s2 = clearIfSet (firstMoveTimer a) s1;
               s3 = emit GpioReleaseAll s2;
               s4 = s3\<lparr>db := setDonationStatus (donationId a) Done (db s3)\<rparr>;
               s5 = emit (PlayerEnd (donationId a)) s4
           in maybeStartNext (s5\<lparr>active := None\<rparr>)))"

definition startCreditTimerIfNeeded :: "state \<Rightarrow> state" where
  "startCreditTimerIfNeeded s =
     (case active s of
        None \<Rightarrow> s
      | Some a \<Rightarrow>
          if timerStarted a then s
          else
            (let s1 = clearIfSet (firstMoveTimer a) s;
                 mySeq = creditSeq a + 1;
                 a1 = a\<lparr>hasMoved := True, firstMoveTimer := None, timerStarted := True,
                        creditEndsAt := Some (now s + CREDIT_MS), creditSeq := mySeq,
                        creditConsumed := False\<rparr>;
                 s2 = emit (CreditStart (donationId a1) (creditEndsAt a1) (creditsRemaining a1)) s1;
                 (h, s3) = setTimeout (CreditExpiry mySeq) CREDIT_MS s2
             in s3\<lparr>active := Some (a1\<lparr>timer := Some h\<rparr>)\<rparr>))"

definition consumeOneCreditSafely :: "state \<Rightarrow> state \<times> bool" where
  "consumeOneCreditSafely s =
     (case active s of
        None \<Rightarrow> (s, False)
      | Some a \<Rightarrow>
          if creditConsumed a then (s, False)
          else (s\<lparr>db := useOneCredit (donationId a) (db s),
                  active := Some (a\<lparr>creditConsumed := True,
                                    creditsRemaining := creditsRemaining a - 1\<rparr>)\<rparr>, True))"

text \<open>
  The lines that \<open>finishCreditNormally\<close> and the grab-finish closure share, word for word,
  after a credit has been consumed: open the next cycle or end the session, then broadcast.
\<close>

definition afterCreditConsumed :: "state \<Rightarrow> state" where
  "afterCreditConsumed s =
     (case active s of
        None \<Rightarrow> s
      | Some a \<Rightarrow>
          broadcastQueue
            (if creditsRemaining a > 0
             then scheduleFirstMoveTimeout
                    (s\<lparr>active := Some (a\<lparr>timerStarted := False, creditEndsAt := None,
                                          hasMoved := False, grabUsed := False\<rparr>)\<rparr>)
             else endActivePlayer s))"

definition finishCreditNormally :: "state \<Rightarrow> state" where
  "finishCreditNormally s =
     (case active s of
        None \<Rightarrow> s
      | Some a \<Rightarrow>
          (let (s1, consumed) = consumeOneCreditSafely s
           in if \<not> consumed then s1 else afterCreditConsumed s1))"

text \<open>
  The result of \<open>handleGrabIfAllowed\<close>: \<open>{ ok: true }\<close>, \<open>{ ok: false, error }\<close>, or the
  \<open>TypeError\<close> that reading a field of \<open>null\<close> would throw.
\<close>

datatype grab_result = Ok | Rejected string | TypeError

definition handleGrabIfAllowed :: "state \<Rightarrow> state \<times> grab_result" where
  "handleGrabIfAllowed s =
     (case active s of
        None \<Rightarrow> (s, Rejected ''no_active'')
      | Some a \<Rightarrow>
          if grabUsed a then (s, Rejected ''grab_already_used'')
          else
            (let s1 = (if \<not> timerStarted a then startCreditTimerIfNeeded s else s)
             in case active s1 of
                  None \<Rightarrow> (s1, TypeError)
                | Some a1 \<Rightarrow>
                    (let s2 = clearIfSet (timer a1) s1;
                         mySeq = creditSeq a1 + 1;
                         a2 = a1\<lparr>grabUsed := True, creditEndsAt := Some (now s + GRAB_FINISH_MS),
                                  creditSeq := mySeq, creditConsumed := False\<rparr>;
                         s3 = emit (CreditStart (donationId a2) (creditEndsAt a2) (creditsRemaining a2)) s2;
                         s4 = emit (GpioPulse ''grab'' 300) s3;
                         (h, s5) = setTimeout (GrabFinish mySeq) GRAB_FINISH_MS s4
                     in (s5\<lparr>active := Some (a2\<lparr>timer := Some h\<rparr>)\<rparr>, Ok))))"

subsection \<open>The timer callbacks\<close>

definition creditExpiryCallback :: "nat \<Rightarrow> state \<Rightarrow> state" where
  "creditExpiryCallback mySeq s =
     (case active s of
        None \<Rightarrow> s
      | Some a \<Rightarrow> if creditSeq a \<noteq> mySeq then s else finishCreditNormally s)"

definition grabFinishCallback :: "nat \<Rightarrow> state \<Rightarrow> state" where
  "grabFinishCallback mySeq s =
     (case active s of
        None \<Rightarrow> s
      | Some a \<Rightarrow>
          if creditSeq a \<noteq> mySeq then s
          else
            (let (s1, consumed) = consumeOneCreditSafely s
             in if \<not> consumed then s1 else afterCreditConsumed s1))"

definition firstMoveTimeoutCallback :: "state \<Rightarrow> state" where
  "firstMoveTimeoutCallback s =
     (case active s of
        None \<Rightarrow> s
      | Some a \<Rightarrow>
          if hasMoved a then s
          else
            (let queueNow = listQueue (db s);
                 someoneWaiting = list_ex (\<lambda>q. status q = Waiting \<and> row_id q \<noteq> donationId a) queueNow
             in if someoneWaiting
                then (let timedOutDonationId = donationId a
                      in emit (PlayerTimeout timedOutDonationId ''no_first_move'') (endActivePlayer s))
                else broadcastQueue (scheduleFirstMoveTimeout s)))"

definition creditPulseCallback :: "state \<Rightarrow> state" where
  "creditPulseCallback s = emit (GpioPulse ''credit'' 200) s"

fun run_callback :: "callback \<Rightarrow> state \<Rightarrow> state" where
  "run_callback CreditPulse s = creditPulseCallback s"
| "run_callback FirstMoveTimeout s = firstMoveTimeoutCallback s"
| "run_callback (CreditExpiry mySeq) s = creditExpiryCallback mySeq s"
| "run_callback (GrabFinish mySeq) s = grabFinishCallback mySeq s"

text \<open>
  The runtime fires a timer that is still set: it leaves the set of pending timers and its
  callback runs. A handle that is not pending fires nothing.
\<close>

definition fire :: "nat \<Rightarrow> state \<Rightarrow> state" where
  "fire h s =
     (case find (\<lambda>t. handle t = h) (timers s) of
        None \<Rightarrow> s
      | Some t \<Rightarrow> run_callback (run t) (s\<lparr>timers := filter (\<lambda>t. handle t \<noteq> h) (timers s)\<rparr>))"

subsection \<open>The other entry points\<close>

definition getActiveState :: "state \<Rightarrow> nat option \<times> nat option \<times> nat option" where
  "getActiveState s =
     (case active s of
        Some a \<Rightarrow> (Some (donationId a), creditEndsAt a, Some (firstMoveDeadline a))
      | None \<Rightarrow> (None, None, None))"

text \<open>The amount is a finite JavaScript number, hence a rational.\<close>

definition handlePaidDonation :: "string \<Rightarrow> rat \<Rightarrow> state \<Rightarrow> state \<times> int" where
  "handlePaidDonation intentId amountEur s =
     (let creditsTotal = min 5 \<lfloor>amountEur\<rfloor>;
          s1 = s\<lparr>db := markIntentPaid intentId creditsTotal (now s) (db s)\<rparr>
      in (broadcastQueue (maybeStartNext s1), creditsTotal))"

text \<open>The heartbeat of \<open>setInterval\<close>: a broadcast when there is anything to show.\<close>

definition heartbeat :: "state \<Rightarrow> state" where
  "heartbeat s =
     (let q = listQueue (db s);
          hasState = (active s \<noteq> None \<or> list_ex (\<lambda>d. status d = Waiting \<or> status d = Active) q)
      in if hasState then broadcastQueue s else s)"

text \<open>
  The module calls \<open>recoverAfterRestart()\<close> once, at load time, before it exports anything:
  the process starts from the recovered table, with no session and no timer.
\<close>

definition boot :: "table \<Rightarrow> nat \<Rightarrow> state" where
  "boot rows t = \<lparr>db = recoverAfterRestart rows, active = None, timers = [], next_handle = 0,
                  now = t, trace = []\<rparr>"

section \<open>The administrative force-end (admin.js)\<close>

text \<open>
  \<open>safeForceEndActive\<close> calls \<open>game.forceEndActive\<close> when the game module has such a
  function. The module exports \<open>handlePaidDonation\<close>, \<open>maybeStartNext\<close>,
  \<open>startCreditTimerIfNeeded\<close>, \<open>handleGrabIfAllowed\<close>, \<open>isActiveTokenDonation\<close>,
  \<open>broadcastQueue\<close> and \<open>getActiveState\<close> only, so the test fails and the fallback runs.
  The argument \<open>reason\<close> is not used by the fallback.
\<close>

definition safeForceEndActive :: "string \<Rightarrow> state \<Rightarrow> state" where
  "safeForceEndActive reason s =
     (let activeId = fst (getActiveState s);
          s1 = (case activeId of
                  None \<Rightarrow> s
                | Some i \<Rightarrow> if i \<noteq> 0 then s\<lparr>db := setDonationStatus i Done (db s)\<rparr> else s)
      in broadcastQueue (maybeStartNext s1))"

section \<open>The credit invariant\<close>

text \<open>The persisted invariant of one row, and of the table.\<close>

definition credits_ok :: "donation \<Rightarrow> bool" where
  "credits_ok r \<longleftrightarrow> 0 \<le> credits_used r \<and> credits_used r \<le> credits_total r"

definition table_ok :: "table \<Rightarrow> bool" where
  "table_ok rows \<longleftrightarrow> list_all credits_ok rows"

text \<open>Credits that JavaScript reads as they are stored: magnitudes below \<open>2 ^ 53\<close>.\<close>

definition safe_credits :: "table \<Rightarrow> bool" where
  "safe_credits rows \<longleftrightarrow>
     list_all (\<lambda>r. \<bar>credits_total r\<bar> < 2 ^ 53 \<and> \<bar>credits_used r\<bar> < 2 ^ 53) rows"

section \<open>The process as a transition system\<close>

text \<open>
  \<open>createIntent\<close> inserts a row for a donation that is not paid yet. \<open>AUTOINCREMENT\<close>
  gives it an id above every id of the table; the id and the random intent identifier are
  arguments here.
\<close>

definition createIntent :: "nat \<Rightarrow> string \<Rightarrow> nat \<Rightarrow> table \<Rightarrow> table" where
  "createIntent i intentId t rows =
     rows @ [\<lparr>row_id = i, intent_id = Some intentId, credits_total = 0, credits_used = 0,
              credits_pulsed = 0, status = Created, created_at = t\<rparr>]"

text \<open>
  One step of the scheduler itself: an exported function of game.js is called, the
  heartbeat runs, a pending timer that is due fires, or time passes. Handlers run one at a
  time and to completion.
\<close>

inductive scheduler_step :: "state \<Rightarrow> state \<Rightarrow> bool" where
  paid: "scheduler_step s (fst (handlePaidDonation intentId amountEur s))"
| start_next: "scheduler_step s (maybeStartNext s)"
| move: "scheduler_step s (startCreditTimerIfNeeded s)"
| grab: "scheduler_step s (fst (handleGrabIfAllowed s))"
| broadcast: "scheduler_step s (broadcastQueue s)"
| beat: "scheduler_step s (heartbeat s)"
| timer: "t \<in> set (timers s) \<Longrightarrow> due t \<le> now s \<Longrightarrow> scheduler_step s (fire (handle t) s)"
| clock: "now s \<le> t \<Longrightarrow> scheduler_step s (s\<lparr>now := t\<rparr>)"

text \<open>
  One step of the whole process: a step of the scheduler, a new intent, or one of the
  operations that the admin router performs on the table (it never writes the status
  \<open>active\<close> itself) and its force-end.
\<close>

inductive step :: "state \<Rightarrow> state \<Rightarrow> bool" where
  scheduler: "scheduler_step s s' \<Longrightarrow> step s s'"
| intent: "\<forall>r \<in> set (db s). row_id r < i \<Longrightarrow> step s (s\<lparr>db := createIntent i intentId (now s) (db s)\<rparr>)"
| force_end: "step s (safeForceEndActive reason s)"
| admin_adjust: "step s (s\<lparr>db := fst (adjustCredits i delta (db s))\<rparr>)"
| admin_total: "step s (s\<lparr>db := fst (setCreditsTotal i n (db s))\<rparr>)"
| admin_used: "step s (s\<lparr>db := fst (setCreditsUsed i n (db s))\<rparr>)"
| admin_requeue: "step s (s\<lparr>db := requeueToEnd i (now s) (db s)\<rparr>)"
| admin_status: "st \<noteq> Active \<Longrightarrow> step s (s\<lparr>db := setDonationStatus i st (db s)\<rparr>)"
| admin_delete: "step s (s\<lparr>db := deleteDonationById i (db s)\<rparr>)"
| admin_delete_all: "step s (s\<lparr>db := deleteAllDonations (db s)\<rparr>)"

inductive reachable :: "state \<Rightarrow> bool" where
  booted: "distinct (map row_id rows) \<Longrightarrow> reachable (boot rows t)"
| stepped: "reachable s \<Longrightarrow> step s s' \<Longrightarrow> reachable s'"

text \<open>
  The invariant that ties the table to the session: ids are unique, and a row is active only
  if the session in memory is that row's.
\<close>

definition owns :: "table \<Rightarrow> session option \<Rightarrow> bool" where
  "owns rows sess \<longleftrightarrow>
     distinct (map row_id rows)
     \<and> (\<forall>r \<in> set rows. status r = Active \<longrightarrow> map_option donationId sess = Some (row_id r))"

definition session_owns_active :: "state \<Rightarrow> bool" where
  "session_owns_active s \<longleftrightarrow> owns (db s) (active s)"

text \<open>
  The pulsed flag from one table to a later one: same rows by id, and a flag that was set is
  still set.
\<close>

definition keeps_flag :: "table \<Rightarrow> table \<Rightarrow> bool" where
  "keeps_flag rows rows' \<longleftrightarrow>
     list_all2 (\<lambda>r r'. row_id r' = row_id r \<and> (credits_pulsed r \<noteq> 0 \<longrightarrow> credits_pulsed r' \<noteq> 0)) rows rows'"

text \<open>
  The invariant that ties the pending timers to the session. A credit-pulse timer is tied to
  nothing. A first-move timer is the one that the session holds in \<open>firstMoveTimer\<close>, and
  the session has neither moved nor started its credit timer. A credit-expiry or grab-finish
  timer is the one that the session holds in \<open>timer\<close>, the epoch it captured is the live
  \<open>creditSeq\<close>, and the credit timer has started. Handles are unique and were handed out
  before. \<open>only_pulses\<close> says that no other timer than credit pulses is pending.
\<close>

definition timer_tied :: "session option \<Rightarrow> pending_timer \<Rightarrow> bool" where
  "timer_tied sess t \<longleftrightarrow>
     (case run t of
        CreditPulse \<Rightarrow> True
      | FirstMoveTimeout \<Rightarrow>
          (\<exists>a. sess = Some a \<and> firstMoveTimer a = Some (handle t) \<and> \<not> hasMoved a \<and> \<not> timerStarted a)
      | CreditExpiry q \<Rightarrow>
          (\<exists>a. sess = Some a \<and> timer a = Some (handle t) \<and> creditSeq a = q \<and> timerStarted a)
      | GrabFinish q \<Rightarrow>
          (\<exists>a. sess = Some a \<and> timer a = Some (handle t) \<and> creditSeq a = q \<and> timerStarted a))"

definition handles_ok :: "state \<Rightarrow> bool" where
  "handles_ok s \<longleftrightarrow>
     distinct (map handle (timers s)) \<and> (\<forall>t \<in> set (timers s). handle t < next_handle s)"

definition timers_live :: "state \<Rightarrow> bool" where
  "timers_live s \<longleftrightarrow> handles_ok s \<and> (\<forall>t \<in> set (timers s). timer_tied (active s) t)"

definition only_pulses :: "state \<Rightarrow> bool" where
  "only_pulses s \<longleftrightarrow> (\<forall>t \<in> set (timers s). run t = CreditPulse)"

text \<open>
  The pulsed flag of participant \<open>i\<close>: the participant has a row, and the flag is set. A
  step of the whole process after which participant \<open>i\<close> still has a row.
\<close>

definition flag_set :: "nat \<Rightarrow> table \<Rightarrow> bool" where
  "flag_set i rows \<longleftrightarrow>
     (\<exists>r \<in> set rows. row_id r = i) \<and> (\<forall>r \<in> set rows. row_id r = i \<longrightarrow> credits_pulsed r \<noteq> 0)"

definition step_keeping :: "nat \<Rightarrow> state \<Rightarrow> state \<Rightarrow> bool" where
  "step_keeping i s s' \<longleftrightarrow> step s s' \<and> (\<exists>r \<in> set (db s'). row_id r = i)"

text \<open>The credit pulses that are scheduled and have not fired yet.\<close>

definition pending_pulses :: "state \<Rightarrow> nat" where
  "pending_pulses s = length (filter (\<lambda>t. run t = CreditPulse) (timers s))"

text \<open>How often the end of the session of participant \<open>i\<close> has been announced.\<close>

definition ended :: "nat \<Rightarrow> state \<Rightarrow> nat" where
  "ended i s = length (filter (\<lambda>e. e = PlayerEnd i) (trace s))"

text \<open>The earliest row of the queue that is waiting and has a credit left.\<close>

definition nextEligible :: "table \<Rightarrow> donation option" where
  "nextEligible rows =
     find (\<lambda>q. status q = Waiting \<and> credits_total q - credits_used q > 0) (listQueue rows)"

text \<open>
  The scenario of a move followed by a grab, and the state after the grab-finish timer, whose
  handle is the second one handed out since the scenario began, has fired.
\<close>

definition move_then_grab :: "state \<Rightarrow> state" where
  "move_then_grab s = fst (handleGrabIfAllowed (startCreditTimerIfNeeded s))"

definition grab_finished :: "state \<Rightarrow> state" where
  "grab_finished s = fire (Suc (next_handle s)) (move_then_grab s)"

section \<open>Example states\<close>

definition ledger_example :: table where
  "ledger_example =
     [\<lparr>row_id = 1, intent_id = Some ''a'', credits_total = 3, credits_used = 3, credits_pulsed = 1,
        status = Active, created_at = 10\<rparr>,
      \<lparr>row_id = 2, intent_id = Some ''b'', credits_total = 5, credits_used = 1, credits_pulsed = 0,
        status = Waiting, created_at = 20\<rparr>]"

text \<open>
  One paid participant, and the same row after the admin router has set its total to
  \<open>2 ^ 54\<close> and its used credits to \<open>2 ^ 53\<close> and one more credit has been consumed.
\<close>

definition paid_example :: table where
  "paid_example =
     [\<lparr>row_id = 1, intent_id = Some ''a'', credits_total = 5, credits_used = 0, credits_pulsed = 1,
        status = Waiting, created_at = 10\<rparr>]"

definition overdrawn_example :: table where
  "overdrawn_example =
     useOneCredit 1
       (fst (setCreditsUsed 1 9007199254740992
          (fst (setCreditsTotal 1 18014398509481984 paid_example))))"


text \<open>A queue in which nobody has a credit left.\<close>

definition empty_handed_example :: table where
  "empty_handed_example =
     [\<lparr>row_id = 1, intent_id = Some ''a'', credits_total = 2, credits_used = 2, credits_pulsed = 1,
        status = Waiting, created_at = 10\<rparr>,
      \<lparr>row_id = 2, intent_id = Some ''b'', credits_total = 0, credits_used = 0, credits_pulsed = 0,
        status = Waiting, created_at = 20\<rparr>,
      \<lparr>row_id = 3, intent_id = Some ''c'', credits_total = 1, credits_used = 1, credits_pulsed = 1,
        status = Waiting, created_at = 30\<rparr>]"

text \<open>Two paid participants: A (id 1, two credits) ahead of B (id 2, one credit).\<close>

definition queue_example :: table where
  "queue_example =
     [\<lparr>row_id = 1, intent_id = Some ''a'', credits_total = 2, credits_used = 0, credits_pulsed = 0,
        status = Waiting, created_at = 10\<rparr>,
      \<lparr>row_id = 2, intent_id = Some ''b'', credits_total = 1, credits_used = 0, credits_pulsed = 0,
        status = Waiting, created_at = 20\<rparr>]"

text \<open>The state after the process has booted on that table at time 0 and started A.\<close>

definition started_example :: state where
  "started_example =
     \<lparr>db = [\<lparr>row_id = 1, intent_id = Some ''a'', credits_total = 2, credits_used = 0,
               credits_pulsed = 1, status = Active, created_at = 10\<rparr>,
            \<lparr>row_id = 2, intent_id = Some ''b'', credits_total = 1, credits_used = 0,
               credits_pulsed = 0, status = Waiting, created_at = 20\<rparr>],
      active = Some \<lparr>donationId = 1, creditsRemaining = 2, timer = None, timerStarted = False,
                      creditEndsAt = None, firstMoveDeadline = 15000, firstMoveTimer = Some 2,
                      hasMoved = False, grabUsed = False, creditSeq = 0, creditConsumed = False\<rparr>,
      timers = [\<lparr>handle = 0, due = 0, run = CreditPulse\<rparr>,
                \<lparr>handle = 1, due = 400, run = CreditPulse\<rparr>,
                \<lparr>handle = 2, due = 15000, run = FirstMoveTimeout\<rparr>],
      next_handle = 3, now = 0,
      trace = [QueueUpdate (Some 1) None (Some 15000) [(1, 2, Active, 1), (2, 1, Waiting, 2)],
               PlayerStart 1 2 15000]\<rparr>"

text \<open>
  A moves (epoch 1, credit timer 3) and lets the credit run out: at 35000 timer 3 fires, one
  credit is consumed, one is left, and a new first-move window opens under the same epoch 1.
\<close>

definition second_cycle_example :: state where
  "second_cycle_example = fire 3 ((startCreditTimerIfNeeded started_example)\<lparr>now := 35000\<rparr>)"

text \<open>A moves and grabs: the grab is used for this cycle.\<close>

definition grabbed_example :: state where
  "grabbed_example = fst (handleGrabIfAllowed (startCreditTimerIfNeeded started_example))"

text \<open>
  A run from \<open>started_example\<close>. The first-move window of A runs out at 15000 and its
  timer (handle 2) fires: A is done and B is started, with one credit pulse. B moves, and at
  50000 its credit timer (handle 5) fires: the one credit of B is consumed, B is done and
  nobody is in session. The admin router then puts A back into the queue, and
  \<open>maybeStartNext\<close> starts A again, alone in the queue; its first-move window runs out at
  65000.
\<close>

definition due_example :: state where
  "due_example = started_example\<lparr>now := 15000\<rparr>"

definition timed_out_example :: state where
  "timed_out_example = fire 2 due_example"

definition b_moved_example :: state where
  "b_moved_example = startCreditTimerIfNeeded timed_out_example"

definition b_due_example :: state where
  "b_due_example = b_moved_example\<lparr>now := 50000\<rparr>"

definition b_played_example :: state where
  "b_played_example = fire 5 b_due_example"

definition requeued_example :: state where
  "requeued_example = b_played_example\<lparr>db := requeueToEnd 1 (now b_played_example) (db b_played_example)\<rparr>"

definition sole_example :: state where
  "sole_example = maybeStartNext requeued_example"

definition sole_due_example :: state where
  "sole_due_example = sole_example\<lparr>now := 65000\<rparr>"

text \<open>
  \<open>started_example\<close> after the admin router has set the used credits of B to 1: B is
  waiting with no credit left while A is in session.
\<close>

definition zero_credit_waiter_example :: state where
  "zero_credit_waiter_example = started_example\<lparr>db := fst (setCreditsUsed 2 1 (db started_example))\<rparr>"

section \<open>Facts about the ledger\<close>

lemma set_update_where:
  "set (update_where P f rows) = (\<lambda>r. if P r then f r else r) ` set rows"
  by (simp add: update_where_def)

lemma ids_update_where:
  assumes "\<And>r. row_id (f r) = row_id r"
  shows "map row_id (update_where P f rows) = map row_id rows"
  using assms by (induction rows) (simp_all add: update_where_def)

lemma find_id_mem:
  "getDonationById i rows = Some row \<Longrightarrow> row \<in> set rows \<and> row_id row = i"
  unfolding getDonationById_def
  by (induction rows) (auto split: if_splits)

lemma table_ok_update_where:
  assumes "table_ok rows" and "\<And>r. r \<in> set rows \<Longrightarrow> P r \<Longrightarrow> credits_ok r \<Longrightarrow> credits_ok (f r)"
  shows "table_ok (update_where P f rows)"
  using assms by (auto simp: table_ok_def list_all_iff set_update_where)

lemma useOneCredit_ok: "table_ok rows \<Longrightarrow> table_ok (useOneCredit i rows)"
  unfolding useOneCredit_def
  by (rule table_ok_update_where) (auto simp: credits_ok_def)

lemma same_id_same_row:
  "distinct (map row_id rows) \<Longrightarrow> r \<in> set rows \<Longrightarrow> r' \<in> set rows \<Longrightarrow> row_id r = row_id r' \<Longrightarrow> r = r'"
  by (meson distinct_map inj_onD)

lemma js_shift_le: "m < 2 ^ 53 * 2 ^ e \<Longrightarrow> js_shift m \<le> e"
proof (induction e arbitrary: m)
  case 0
  then show ?case by (simp add: js_shift.simps [of m])
next
  case (Suc e)
  show ?case
  proof (cases "m < 2 ^ 53")
    case True
    then show ?thesis by (simp add: js_shift.simps [of m])
  next
    case False
    from Suc.prems have "m < (2 ^ 53 * 2 ^ e) * 2" by (simp add: mult_ac)
    then have "m div 2 < 2 ^ 53 * 2 ^ e" by (rule less_mult_imp_div_less)
    from Suc.IH [OF this] False show ?thesis by (simp add: js_shift.simps [of m])
  qed
qed

text \<open>An integer with at most 53 significant bits is a double.\<close>

lemma js_number_exact:
  assumes "\<bar>n\<bar> < 2 ^ 53 * 2 ^ e" and "2 ^ e dvd n"
  shows "js_number n = n"
proof -
  define m where "m = nat \<bar>n\<bar>"
  have "int m < int (2 ^ 53 * 2 ^ e)" using assms(1) by (simp add: m_def)
  then have "m < 2 ^ 53 * 2 ^ e" by (simp only: of_nat_less_iff)
  then have le: "js_shift m \<le> e" by (rule js_shift_le)
  have "int (2 ^ e) dvd int m" using assms(2) by (simp add: m_def)
  then have "(2::nat) ^ e dvd m" by (simp only: of_nat_dvd_iff)
  with le have d: "2 ^ js_shift m dvd m"
    by (meson dvd_trans le_imp_power_dvd)
  then have r: "m mod 2 ^ js_shift m = 0" by simp
  have q: "m div 2 ^ js_shift m * 2 ^ js_shift m = m"
    using d by (rule dvd_div_mult_self)
  have "js_number n = sgn n * int (m div 2 ^ js_shift m * 2 ^ js_shift m)"
    using r by (simp add: js_number_def Let_def m_def [symmetric])
  also have "\<dots> = sgn n * int m" by (simp only: q)
  also have "\<dots> = n" by (simp add: m_def mult_sgn_abs)
  finally show ?thesis .
qed

lemma js_number_safe [simp]: "\<bar>n\<bar> < 2 ^ 53 \<Longrightarrow> js_number n = n"
  using js_number_exact [of n 0] by simp

lemma js_shift_numeral:
  "js_shift (numeral k) = (if numeral k < (2::nat) ^ 53 then 0 else Suc (js_shift (numeral k div 2)))"
  by (rule js_shift.simps)

lemma safe_row:
  assumes "safe_credits rows" and "getDonationById i rows = Some row"
  shows "js_number (credits_total row) = credits_total row"
    and "js_number (credits_used row) = credits_used row"
  using assms(1) find_id_mem [OF assms(2)] by (simp_all add: safe_credits_def list_all_iff)

lemma adjustCredits_ok:
  assumes ok: "table_ok rows" and d: "distinct (map row_id rows)" and sf: "safe_credits rows"
  shows "table_ok (fst (adjustCredits i delta rows))"
proof (cases "getDonationById i rows")
  case None
  with ok show ?thesis by (simp add: adjustCredits_def)
next
  case (Some row)
  define n where "n = max 0 (js_number (credits_total row + delta))"
  have "table_ok (update_where (\<lambda>r. row_id r = i)
          (\<lambda>r. r\<lparr>credits_total := max n (credits_used row)\<rparr>) rows)"
  proof (rule table_ok_update_where [OF ok])
    fix r assume r: "r \<in> set rows" "row_id r = i" "credits_ok r"
    have "r = row"
      using same_id_same_row [OF d r(1)] find_id_mem [OF Some] r(2) by simp
    with r(3) show "credits_ok (r\<lparr>credits_total := max n (credits_used row)\<rparr>)"
      by (simp add: credits_ok_def)
  qed
  with Some show ?thesis by (simp add: adjustCredits_def Let_def safe_row [OF sf Some] n_def)
qed

lemma setCreditsTotal_ok:
  assumes ok: "table_ok rows" and d: "distinct (map row_id rows)" and sf: "safe_credits rows"
  shows "table_ok (fst (setCreditsTotal i n rows))"
proof (cases "getDonationById i rows")
  case None
  with ok show ?thesis by (simp add: setCreditsTotal_def)
next
  case (Some row)
  have "table_ok (update_where (\<lambda>r. row_id r = i)
          (\<lambda>r. r\<lparr>credits_total := max (max 0 n) (credits_used row)\<rparr>) rows)"
  proof (rule table_ok_update_where [OF ok])
    fix r assume r: "r \<in> set rows" "row_id r = i" "credits_ok r"
    have "r = row"
      using same_id_same_row [OF d r(1)] find_id_mem [OF Some] r(2) by simp
    with r(3) show "credits_ok (r\<lparr>credits_total := max (max 0 n) (credits_used row)\<rparr>)"
      by (simp add: credits_ok_def)
  qed
  with Some show ?thesis by (simp add: setCreditsTotal_def Let_def safe_row [OF sf Some])
qed

lemma setCreditsUsed_ok:
  assumes ok: "table_ok rows" and d: "distinct (map row_id rows)" and sf: "safe_credits rows"
  shows "table_ok (fst (setCreditsUsed i n rows))"
proof (cases "getDonationById i rows")
  case None
  with ok show ?thesis by (simp add: setCreditsUsed_def)
next
  case (Some row)
  have "table_ok (update_where (\<lambda>r. row_id r = i)
          (\<lambda>r. r\<lparr>credits_used := max 0 (min n (credits_total row))\<rparr>) rows)"
  proof (rule table_ok_update_where [OF ok])
    fix r assume r: "r \<in> set rows" "row_id r = i" "credits_ok r"
    have "r = row"
      using same_id_same_row [OF d r(1)] find_id_mem [OF Some] r(2) by simp
    with r(3) show "credits_ok (r\<lparr>credits_used := max 0 (min n (credits_total row))\<rparr>)"
      by (simp add: credits_ok_def)
  qed
  with Some show ?thesis by (simp add: setCreditsUsed_def Let_def safe_row [OF sf Some])
qed

lemma getDonationById_update_where:
  assumes "\<And>r. row_id (f r) = row_id r"
  shows "getDonationById i (update_where (\<lambda>r. row_id r = i) f rows) = map_option f (getDonationById i rows)"
  using assms by (induction rows) (simp_all add: getDonationById_def update_where_def)

lemma useOneCredit_at_cap:
  assumes "getDonationById i rows = Some row" and "credits_used row = credits_total row"
  shows "getDonationById i (useOneCredit i rows) = Some row"
  using assms by (simp add: useOneCredit_def getDonationById_update_where)

lemma setCreditsTotal_row:
  assumes "getDonationById i rows = Some row" and "safe_credits rows"
  shows "snd (setCreditsTotal i n rows) = Some (row\<lparr>credits_total := max (max 0 n) (credits_used row)\<rparr>)"
  using assms(1)
  by (simp add: setCreditsTotal_def Let_def getDonationById_update_where safe_row [OF assms(2,1)])

lemma adjustCredits_row:
  assumes "getDonationById i rows = Some row" and "safe_credits rows"
  shows "snd (adjustCredits i delta rows) =
         Some (row\<lparr>credits_total := max (max 0 (js_number (credits_total row + delta))) (credits_used row)\<rparr>)"
  using assms(1)
  by (simp add: adjustCredits_def Let_def getDonationById_update_where safe_row [OF assms(2,1)])

lemma setCreditsUsed_row:
  assumes "getDonationById i rows = Some row" and "safe_credits rows"
  shows "snd (setCreditsUsed i m rows) = Some (row\<lparr>credits_used := max 0 (min m (credits_total row))\<rparr>)"
  using assms(1)
  by (simp add: setCreditsUsed_def Let_def getDonationById_update_where safe_row [OF assms(2,1)])

section \<open>Facts about the scheduler\<close>

lemma emit_fields [simp]:
  "db (emit e s) = db s" "active (emit e s) = active s" "timers (emit e s) = timers s"
  "next_handle (emit e s) = next_handle s" "now (emit e s) = now s" "trace (emit e s) = trace s @ [e]"
  by (simp_all add: emit_def)

lemma clearTimeout_fields [simp]:
  "db (clearTimeout h s) = db s" "active (clearTimeout h s) = active s"
  "timers (clearTimeout h s) = filter (\<lambda>t. handle t \<noteq> h) (timers s)"
  "next_handle (clearTimeout h s) = next_handle s" "now (clearTimeout h s) = now s"
  "trace (clearTimeout h s) = trace s"
  by (simp_all add: clearTimeout_def)

lemma clearIfSet_fields [simp]:
  "db (clearIfSet x s) = db s" "active (clearIfSet x s) = active s"
  "next_handle (clearIfSet x s) = next_handle s" "now (clearIfSet x s) = now s"
  "trace (clearIfSet x s) = trace s"
  by (simp_all add: clearIfSet_def split: option.splits)

lemma setTimeout_fields [simp]:
  "fst (setTimeout cb d s) = next_handle s"
  "db (snd (setTimeout cb d s)) = db s" "active (snd (setTimeout cb d s)) = active s"
  "timers (snd (setTimeout cb d s)) = timers s @ [\<lparr>handle = next_handle s, due = now s + d, run = cb\<rparr>]"
  "next_handle (snd (setTimeout cb d s)) = Suc (next_handle s)" "now (snd (setTimeout cb d s)) = now s"
  "trace (snd (setTimeout cb d s)) = trace s"
  by (simp_all add: setTimeout_def)

lemma broadcastQueue_fields [simp]:
  "db (broadcastQueue s) = db s" "active (broadcastQueue s) = active s"
  "timers (broadcastQueue s) = timers s" "next_handle (broadcastQueue s) = next_handle s"
  "now (broadcastQueue s) = now s"
  by (simp_all add: broadcastQueue_def)


text \<open>After the cleanup loop no waiting row is without credits, so the recursive branch of
  \<open>maybeStartNext\<close> is never taken and the function has a closed form.\<close>

lemma fold_set_status:
  "fold (\<lambda>q acc. if B q then setDonationStatus (row_id q) st acc else acc) qs rows
   = map (\<lambda>r. if row_id r \<in> row_id ` {q \<in> set qs. B q} then r\<lparr>status := st\<rparr> else r) rows"
proof (induction qs arbitrary: rows)
  case Nil
  then show ?case by simp
next
  case (Cons q qs)
  show ?case
  proof (cases "B q")
    case True
    have "fold (\<lambda>q acc. if B q then setDonationStatus (row_id q) st acc else acc) (q # qs) rows
          = map (\<lambda>r. if row_id r \<in> row_id ` {q \<in> set qs. B q} then r\<lparr>status := st\<rparr> else r)
              (setDonationStatus (row_id q) st rows)"
      using True by (simp add: Cons.IH)
    also have "\<dots> = map (\<lambda>r. if row_id r \<in> row_id ` {q' \<in> set (q # qs). B q'} then r\<lparr>status := st\<rparr> else r) rows"
      using True by (auto simp: setDonationStatus_def update_where_def)
    finally show ?thesis .
  next
    case False
    have "{q' \<in> set (q # qs). B q'} = {q' \<in> set qs. B q'}"
      using False by auto
    with False show ?thesis by (simp add: Cons.IH)
  qed
qed

lemma cleanup_map:
  "maybeStartNext_cleanup rows
   = map (\<lambda>r. if row_id r \<in> row_id ` {q \<in> set (listQueue rows). status q = Waiting \<and> credits_total q - credits_used q \<le> 0}
               then r\<lparr>status := Done\<rparr> else r) rows"
  unfolding maybeStartNext_cleanup_def by (rule fold_set_status)

lemma cleanup_no_zero_waiting:
  assumes "r \<in> set (maybeStartNext_cleanup rows)" and "status r = Waiting"
  shows "credits_total r - credits_used r > 0"
  using assms unfolding cleanup_map
  by (auto simp: set_listQueue split: if_splits)

lemma cleanup_distinct:
  assumes "distinct (map row_id rows)"
  shows "maybeStartNext_cleanup rows
         = map (\<lambda>r. if status r = Waiting \<and> credits_total r - credits_used r \<le> 0
                     then r\<lparr>status := Done\<rparr> else r) rows"
  unfolding cleanup_map
  using assms by (auto intro!: map_cong simp: set_listQueue dest: same_id_same_row)

lemma maybeStartNext_closed:
  "maybeStartNext s =
     (case active s of
        Some a \<Rightarrow> s
      | None \<Rightarrow>
          (case find (\<lambda>q. status q = Waiting) (listQueue (maybeStartNext_cleanup (db s))) of
             None \<Rightarrow> broadcastQueue (s\<lparr>db := maybeStartNext_cleanup (db s)\<rparr>)
           | Some next \<Rightarrow> maybeStartNext_activate next (s\<lparr>db := maybeStartNext_cleanup (db s)\<rparr>)))"
proof -
  have "credits_total nxt - credits_used nxt > 0"
    if "find (\<lambda>q. status q = Waiting) (listQueue (maybeStartNext_cleanup (db s))) = Some nxt" for nxt
    using find_waiting_in_table [OF that] cleanup_no_zero_waiting by blast
  then show ?thesis
    by (subst maybeStartNext.simps) (auto split: option.splits)
qed

lemma fold_set_status_distinct:
  assumes d: "distinct (map row_id rows)" and sub: "set qs \<subseteq> set rows"
  shows "fold (\<lambda>q acc. if B q then setDonationStatus (row_id q) st acc else acc) qs rows
         = map (\<lambda>r. if r \<in> set qs \<and> B r then r\<lparr>status := st\<rparr> else r) rows"
proof -
  have "(row_id r \<in> row_id ` {q \<in> set qs. B q}) = (r \<in> set qs \<and> B r)" if "r \<in> set rows" for r
  proof
    assume "row_id r \<in> row_id ` {q \<in> set qs. B q}"
    then obtain q where q: "q \<in> set qs" "B q" "row_id r = row_id q" by auto
    then have "r = q" using same_id_same_row [OF d that, of q] sub by auto
    with q show "r \<in> set qs \<and> B r" by simp
  qed auto
  then show ?thesis
    unfolding fold_set_status by (auto intro!: map_cong)
qed

lemma recover_closed:
  assumes d: "distinct (map row_id rows)"
  shows "recoverAfterRestart rows
         = map (\<lambda>r. if status r = Active \<or> status r = Waiting
                     then r\<lparr>status := (if credits_total r - credits_used r \<le> 0 then Done else Waiting)\<rparr>
                     else r) rows"
proof -
  let ?rows1 = "map (\<lambda>r. if status r = Active then r\<lparr>status := Waiting\<rparr> else r) rows"
  have 1: "fold (\<lambda>a acc. setDonationStatus (row_id a) Waiting acc) (filter (\<lambda>r. status r = Active) rows) rows = ?rows1"
    using fold_set_status_distinct [OF d, of "filter (\<lambda>r. status r = Active) rows" "\<lambda>_. True" Waiting]
    by (auto intro!: map_cong)
  have d1: "distinct (map row_id ?rows1)"
    using d by (simp add: comp_def if_distrib cong: if_cong)
  have 2: "fold (\<lambda>w acc. if credits_total w - credits_used w \<le> 0
                        then setDonationStatus (row_id w) Done acc else acc)
           (filter (\<lambda>r. status r = Waiting) ?rows1) ?rows1
         = map (\<lambda>r. if r \<in> set (filter (\<lambda>r. status r = Waiting) ?rows1) \<and> credits_total r - credits_used r \<le> 0
                     then r\<lparr>status := Done\<rparr> else r) ?rows1"
    by (rule fold_set_status_distinct [OF d1]) auto
  show ?thesis
    unfolding recoverAfterRestart_def Let_def 1 2
    by (auto intro!: map_cong)
qed

lemma schedule_pulses_Suc:
  "schedule_pulses (Suc n) s = snd (setTimeout CreditPulse (n * 400) (schedule_pulses n s))"
  by (simp add: schedule_pulses_def)

lemma schedule_pulses_fields [simp]:
  "db (schedule_pulses n s) = db s" "active (schedule_pulses n s) = active s"
  "now (schedule_pulses n s) = now s" "trace (schedule_pulses n s) = trace s"
  "next_handle (schedule_pulses n s) = next_handle s + n"
  by (induction n) (simp_all add: schedule_pulses_Suc, simp_all add: schedule_pulses_def)

lemma schedule_pulses_timers:
  "timers (schedule_pulses n s)
   = timers s @ map (\<lambda>i. \<lparr>handle = next_handle s + i, due = now s + i * 400, run = CreditPulse\<rparr>) [0..<n]"
  by (induction n) (simp_all add: schedule_pulses_Suc, simp add: schedule_pulses_def)

lemma scheduleFirstMoveTimeout_fields [simp]:
  "db (scheduleFirstMoveTimeout s) = db s" "now (scheduleFirstMoveTimeout s) = now s"
  "trace (scheduleFirstMoveTimeout s) = trace s"
  by (simp_all add: scheduleFirstMoveTimeout_def Let_def split_def split: option.splits)

lemma scheduleFirstMoveTimeout_active:
  "active (scheduleFirstMoveTimeout s)
   = map_option (\<lambda>a. a\<lparr>firstMoveDeadline := now s + FIRST_MOVE_MS, firstMoveTimer := Some (next_handle s)\<rparr>) (active s)"
  by (simp add: scheduleFirstMoveTimeout_def Let_def split_def split: option.splits)

lemma activate_db:
  "db (maybeStartNext_activate nxt s)
   = (if credits_pulsed nxt = 0 \<and> credits_total nxt - credits_used nxt > 0
      then markCreditsPulsed (row_id nxt) (setDonationStatus (row_id nxt) Active (db s))
      else setDonationStatus (row_id nxt) Active (db s))"
  by (simp add: maybeStartNext_activate_def Let_def scheduleFirstMoveTimeout_active)

lemma activate_active:
  "active (maybeStartNext_activate nxt s)
   = Some \<lparr>donationId = row_id nxt, creditsRemaining = credits_total nxt - credits_used nxt,
            timer = None, timerStarted = False, creditEndsAt = None,
            firstMoveDeadline = now s + FIRST_MOVE_MS,
            firstMoveTimer = Some (next_handle s + pulses_due nxt),
            hasMoved = False, grabUsed = False, creditSeq = 0, creditConsumed = False\<rparr>"
  by (simp add: maybeStartNext_activate_def Let_def scheduleFirstMoveTimeout_active pulses_due_def)

lemma activate_timers:
  "timers (maybeStartNext_activate nxt s)
   = timers s
     @ map (\<lambda>i. \<lparr>handle = next_handle s + i, due = now s + i * 400, run = CreditPulse\<rparr>) [0..<pulses_due nxt]
     @ [\<lparr>handle = next_handle s + pulses_due nxt, due = now s + FIRST_MOVE_MS, run = FirstMoveTimeout\<rparr>]"
  by (simp add: maybeStartNext_activate_def Let_def scheduleFirstMoveTimeout_active pulses_due_def
      scheduleFirstMoveTimeout_def clearIfSet_def split_def schedule_pulses_timers)

subsection \<open>The session owns the active row\<close>

lemma owns_map:
  assumes o: "owns rows sess"
    and i: "\<And>r. row_id (g r) = row_id r"
    and st: "\<And>r. status (g r) = Active \<Longrightarrow> status r = Active"
  shows "owns (map g rows) sess"
  unfolding owns_def
proof (intro conjI ballI impI)
  have "map row_id (map g rows) = map row_id rows"
    using i by simp
  with o show "distinct (map row_id (map g rows))"
    by (simp only: owns_def)
next
  fix r' assume "r' \<in> set (map g rows)" and a: "status r' = Active"
  then obtain r where r: "r \<in> set rows" "r' = g r" by auto
  with a st have "status r = Active" by simp
  with o r(1) have "map_option donationId sess = Some (row_id r)"
    by (simp add: owns_def)
  with r(2) i show "map_option donationId sess = Some (row_id r')" by simp
qed

lemma owns_update_where:
  assumes "owns rows sess"
    and "\<And>r. row_id (f r) = row_id r"
    and "\<And>r. status (f r) = Active \<Longrightarrow> status r = Active"
  shows "owns (update_where P f rows) sess"
  unfolding update_where_def
proof (rule owns_map [OF assms(1)])
  fix r show "row_id (if P r then f r else r) = row_id r"
    by (simp add: assms(2))
  assume "status (if P r then f r else r) = Active"
  then show "status r = Active"
    by (cases "P r") (simp_all add: assms(3))
qed

lemma owns_filter: "owns rows sess \<Longrightarrow> owns (filter P rows) sess"
  unfolding owns_def by (simp add: distinct_map_filter)

lemma owns_same_id:
  "map_option donationId sess' = map_option donationId sess \<Longrightarrow> owns rows sess' = owns rows sess"
  by (simp add: owns_def)

lemma owns_status:
  "st \<noteq> Active \<Longrightarrow> owns rows sess \<Longrightarrow> owns (setDonationStatus i st rows) sess"
  unfolding setDonationStatus_def by (rule owns_update_where) simp_all

lemma owns_cleanup: "owns rows sess \<Longrightarrow> owns (maybeStartNext_cleanup rows) sess"
  unfolding cleanup_map by (rule owns_map) (simp_all split: if_splits)

lemma in_set_update_where:
  assumes "r \<in> set (update_where P f rows)"
  obtains r0 where "r0 \<in> set rows" and "P r0" and "r = f r0"
  | "r \<in> set rows" and "\<not> P r"
proof -
  from assms obtain r0 where r0: "r0 \<in> set rows" "r = (if P r0 then f r0 else r0)"
    unfolding update_where_def by auto
  show thesis
  proof (cases "P r0")
    case True
    with r0 that(1) show thesis by simp
  next
    case False
    with r0 that(2) show thesis by simp
  qed
qed

lemma status_after_set:
  assumes "r \<in> set (setDonationStatus i st rows)" and "row_id r = i"
  shows "status r = st"
  using assms(1) unfolding setDonationStatus_def
proof (cases rule: in_set_update_where)
  case (1 r0)
  then show ?thesis by simp
next
  case 2
  with assms(2) show ?thesis by simp
qed

lemma owns_end:
  assumes o: "owns rows (Some a)"
  shows "owns (setDonationStatus (donationId a) Done rows) None"
proof -
  have 1: "owns (setDonationStatus (donationId a) Done rows) (Some a)"
    using o by (intro owns_status) simp_all
  have "status r \<noteq> Active" if r: "r \<in> set (setDonationStatus (donationId a) Done rows)" for r
  proof
    assume a: "status r = Active"
    with 1 r have "row_id r = donationId a" by (simp add: owns_def)
    from status_after_set [OF r this] a show False by simp
  qed
  with 1 show ?thesis by (simp add: owns_def)
qed

lemma owns_start:
  assumes o: "owns rows None" and a: "donationId a = i"
  shows "owns (setDonationStatus i Active rows) (Some a)"
  unfolding owns_def
proof (intro conjI ballI impI)
  show "distinct (map row_id (setDonationStatus i Active rows))"
    using o by (simp add: owns_def setDonationStatus_def ids_update_where)
next
  fix r assume r: "r \<in> set (setDonationStatus i Active rows)" and s: "status r = Active"
  show "map_option donationId (Some a) = Some (row_id r)"
  proof (cases "row_id r = i")
    case True
    with a show ?thesis by simp
  next
    case False
    from r have "r \<in> set rows"
      unfolding setDonationStatus_def
    proof (cases rule: in_set_update_where)
      case (1 r0)
      with False show ?thesis by simp
    next
      case 2
      then show ?thesis by simp
    qed
    with o s show ?thesis by (simp add: owns_def)
  qed
qed


lemma owns_activate:
  assumes "owns (db s) None"
  shows "owns (db (maybeStartNext_activate nxt s)) (active (maybeStartNext_activate nxt s))"
proof -
  let ?a = "\<lparr>donationId = row_id nxt, creditsRemaining = credits_total nxt - credits_used nxt,
            timer = None, timerStarted = False, creditEndsAt = None,
            firstMoveDeadline = now s + FIRST_MOVE_MS,
            firstMoveTimer = Some (next_handle s + pulses_due nxt),
            hasMoved = False, grabUsed = False, creditSeq = 0, creditConsumed = False\<rparr>"
  have 1: "owns (setDonationStatus (row_id nxt) Active (db s)) (Some ?a)"
    by (rule owns_start [OF assms]) simp
  have 2: "owns (markCreditsPulsed (row_id nxt) (setDonationStatus (row_id nxt) Active (db s))) (Some ?a)"
    unfolding markCreditsPulsed_def by (rule owns_update_where [OF 1]) simp_all
  show ?thesis
    unfolding activate_db activate_active using 1 2 by simp
qed

lemma owns_maybeStartNext:
  assumes "session_owns_active s"
  shows "session_owns_active (maybeStartNext s)"
proof (cases "active s")
  case (Some a)
  with assms show ?thesis by (simp add: maybeStartNext_closed)
next
  case None
  with assms have c: "owns (maybeStartNext_cleanup (db s)) None"
    by (simp add: session_owns_active_def owns_cleanup)
  show ?thesis
  proof (cases "find (\<lambda>q. status q = Waiting) (listQueue (maybeStartNext_cleanup (db s)))")
    case f: None
    with None c show ?thesis
      by (simp add: maybeStartNext_closed session_owns_active_def)
  next
    case f: (Some nxt)
    have "owns (db (s\<lparr>db := maybeStartNext_cleanup (db s)\<rparr>)) None"
      using c by simp
    from owns_activate [OF this, of nxt] None f show ?thesis
      by (simp add: maybeStartNext_closed session_owns_active_def)
  qed
qed

lemma owns_endActivePlayer:
  assumes "session_owns_active s"
  shows "session_owns_active (endActivePlayer s)"
proof (cases "active s")
  case None
  with assms show ?thesis by (simp add: endActivePlayer_def)
next
  case (Some a)
  let ?s' = "emit (PlayerEnd (donationId a))
               (emit GpioReleaseAll (clearIfSet (firstMoveTimer a) (clearIfSet (timer a) s))
                \<lparr>db := setDonationStatus (donationId a) Done (db s)\<rparr>)\<lparr>active := None\<rparr>"
  have "session_owns_active ?s'"
    using assms Some by (simp add: session_owns_active_def owns_end)
  then have "session_owns_active (maybeStartNext ?s')"
    by (rule owns_maybeStartNext)
  with Some show ?thesis
    by (simp add: endActivePlayer_def Let_def)
qed


lemma session_owns_active_cong:
  "db s' = db s \<Longrightarrow> map_option donationId (active s') = map_option donationId (active s)
   \<Longrightarrow> session_owns_active s' = session_owns_active s"
  by (simp add: session_owns_active_def owns_def)

lemma owns_scheduleFirstMoveTimeout [simp]:
  "session_owns_active (scheduleFirstMoveTimeout s) = session_owns_active s"
  by (rule session_owns_active_cong)
     (simp_all add: scheduleFirstMoveTimeout_active option.map_comp comp_def)

lemma owns_broadcastQueue [simp]: "session_owns_active (broadcastQueue s) = session_owns_active s"
  by (rule session_owns_active_cong) simp_all

lemma owns_emit [simp]: "session_owns_active (emit e s) = session_owns_active s"
  by (rule session_owns_active_cong) simp_all

lemma startCreditTimerIfNeeded_db [simp]: "db (startCreditTimerIfNeeded s) = db s"
  by (simp add: startCreditTimerIfNeeded_def Let_def split_def split: option.splits)

lemma startCreditTimerIfNeeded_id [simp]:
  "map_option donationId (active (startCreditTimerIfNeeded s)) = map_option donationId (active s)"
  by (simp add: startCreditTimerIfNeeded_def Let_def split_def split: option.splits)

lemma startCreditTimerIfNeeded_now [simp]: "now (startCreditTimerIfNeeded s) = now s"
  by (simp add: startCreditTimerIfNeeded_def Let_def split_def split: option.splits)

lemma owns_startCreditTimerIfNeeded [simp]:
  "session_owns_active (startCreditTimerIfNeeded s) = session_owns_active s"
  by (rule session_owns_active_cong) simp_all

lemma handleGrabIfAllowed_db [simp]: "db (fst (handleGrabIfAllowed s)) = db s"
  by (simp add: handleGrabIfAllowed_def Let_def split_def split: option.splits)

lemma startCreditTimerIfNeeded_None [simp]:
  "(active (startCreditTimerIfNeeded s) = None) = (active s = None)"
  using startCreditTimerIfNeeded_id [of s] by (metis option.map_disc_iff)

lemma handleGrabIfAllowed_id [simp]:
  "map_option donationId (active (fst (handleGrabIfAllowed s))) = map_option donationId (active s)"
proof (cases "active s")
  case None
  then show ?thesis by (simp add: handleGrabIfAllowed_def)
next
  case (Some a)
  show ?thesis
  proof (cases "timerStarted a")
    case True
    with Some show ?thesis
      by (simp add: handleGrabIfAllowed_def Let_def split_def)
  next
    case False
    obtain a1 where a1: "active (startCreditTimerIfNeeded s) = Some a1" "donationId a1 = donationId a"
      using startCreditTimerIfNeeded_id [of s] Some by (cases "active (startCreditTimerIfNeeded s)") auto
    with Some False show ?thesis
      by (simp add: handleGrabIfAllowed_def Let_def split_def)
  qed
qed

lemma owns_handleGrabIfAllowed [simp]:
  "session_owns_active (fst (handleGrabIfAllowed s)) = session_owns_active s"
  by (rule session_owns_active_cong) simp_all

lemma owns_consume:
  assumes "session_owns_active s"
  shows "session_owns_active (fst (consumeOneCreditSafely s))"
proof (cases "active s")
  case None
  with assms show ?thesis by (simp add: consumeOneCreditSafely_def)
next
  case (Some a)
  have "owns (useOneCredit (donationId a) (db s)) (active s)"
    unfolding useOneCredit_def
    by (rule owns_update_where) (use assms in \<open>simp_all add: session_owns_active_def\<close>)
  with Some assms show ?thesis
    by (simp add: consumeOneCreditSafely_def session_owns_active_def owns_same_id [of "Some (a\<lparr>creditConsumed := True, creditsRemaining := creditsRemaining a - 1\<rparr>)" "Some a"])
qed

lemma owns_afterCreditConsumed:
  assumes "session_owns_active s"
  shows "session_owns_active (afterCreditConsumed s)"
proof (cases "active s")
  case None
  with assms show ?thesis by (simp add: afterCreditConsumed_def)
next
  case (Some a)
  have "session_owns_active (s\<lparr>active := Some (a\<lparr>timerStarted := False, creditEndsAt := None,
                                          hasMoved := False, grabUsed := False\<rparr>)\<rparr>)"
    using assms Some by (simp add: session_owns_active_def owns_def)
  with Some assms owns_endActivePlayer [OF assms] show ?thesis
    by (simp add: afterCreditConsumed_def)
qed

lemma owns_consume_then:
  assumes "session_owns_active s"
  shows "session_owns_active (let (s1, consumed) = consumeOneCreditSafely s
                               in if \<not> consumed then s1 else afterCreditConsumed s1)"
  using owns_consume [OF assms] owns_afterCreditConsumed [OF owns_consume [OF assms]]
  by (simp add: split_def Let_def)

lemma owns_run_callback:
  assumes "session_owns_active s"
  shows "session_owns_active (run_callback cb s)"
proof (cases cb)
  case CreditPulse
  with assms show ?thesis by (simp add: creditPulseCallback_def)
next
  case FirstMoveTimeout
  with assms owns_endActivePlayer [OF assms] show ?thesis
    by (simp add: firstMoveTimeoutCallback_def Let_def split: option.splits)
next
  case (CreditExpiry mySeq)
  with assms owns_consume_then [OF assms] show ?thesis
    by (simp add: creditExpiryCallback_def finishCreditNormally_def split: option.splits)
next
  case (GrabFinish mySeq)
  with assms owns_consume_then [OF assms] show ?thesis
    by (simp add: grabFinishCallback_def split: option.splits)
qed

lemma owns_fire:
  assumes "session_owns_active s"
  shows "session_owns_active (fire h s)"
proof (cases "find (\<lambda>t. handle t = h) (timers s)")
  case None
  with assms show ?thesis by (simp add: fire_def)
next
  case (Some t)
  have "session_owns_active (s\<lparr>timers := filter (\<lambda>t. handle t \<noteq> h) (timers s)\<rparr>)"
    using assms by (simp add: session_owns_active_def)
  from owns_run_callback [OF this] Some show ?thesis by (simp add: fire_def)
qed

lemma owns_paid:
  assumes "session_owns_active s"
  shows "session_owns_active (fst (handlePaidDonation intentId amountEur s))"
proof -
  have "owns (markIntentPaid intentId (min 5 \<lfloor>amountEur\<rfloor>) (now s) (db s)) (active s)"
    unfolding markIntentPaid_def
    by (rule owns_update_where) (use assms in \<open>simp_all add: session_owns_active_def\<close>)
  then have "session_owns_active (s\<lparr>db := markIntentPaid intentId (min 5 \<lfloor>amountEur\<rfloor>) (now s) (db s)\<rparr>)"
    by (simp add: session_owns_active_def)
  from owns_maybeStartNext [OF this] show ?thesis
    by (simp add: handlePaidDonation_def Let_def)
qed

lemma owns_heartbeat:
  "session_owns_active s \<Longrightarrow> session_owns_active (heartbeat s)"
  by (simp add: heartbeat_def Let_def)

lemma owns_safeForceEndActive:
  assumes "session_owns_active s"
  shows "session_owns_active (safeForceEndActive reason s)"
proof -
  have "session_owns_active (s\<lparr>db := setDonationStatus i Done (db s)\<rparr>)" for i
    using assms by (simp add: session_owns_active_def owns_status)
  with assms have "session_owns_active
     (case fst (getActiveState s) of None \<Rightarrow> s
      | Some i \<Rightarrow> if i \<noteq> 0 then s\<lparr>db := setDonationStatus i Done (db s)\<rparr> else s)"
    by (simp split: option.splits)
  from owns_maybeStartNext [OF this] show ?thesis
    by (simp add: safeForceEndActive_def Let_def)
qed

lemma owns_scheduler_step:
  assumes "scheduler_step s s'" and "session_owns_active s"
  shows "session_owns_active s'"
  using assms
proof (cases rule: scheduler_step.cases)
  case (paid intentId amountEur)
  with assms(2) show ?thesis by (simp add: owns_paid)
next
  case start_next
  with assms(2) show ?thesis by (simp add: owns_maybeStartNext)
next
  case move
  with assms(2) show ?thesis by simp
next
  case grab
  with assms(2) show ?thesis by simp
next
  case broadcast
  with assms(2) show ?thesis by simp
next
  case beat
  with assms(2) show ?thesis by (simp add: owns_heartbeat)
next
  case (timer t)
  with assms(2) show ?thesis by (simp add: owns_fire)
next
  case (clock t)
  with assms(2) show ?thesis by (simp add: session_owns_active_def)
qed

lemma owns_credit_ops:
  assumes "owns rows sess"
  shows "owns (fst (adjustCredits i delta rows)) sess"
    and "owns (fst (setCreditsTotal i n rows)) sess"
    and "owns (fst (setCreditsUsed i n rows)) sess"
proof -
  have u: "owns (update_where P f rows) sess"
    if "\<And>r. row_id (f r) = row_id r" "\<And>r. status (f r) = status r" for P f
    by (rule owns_update_where [OF assms]) (simp_all add: that)
  show "owns (fst (adjustCredits i delta rows)) sess"
    using assms by (cases "getDonationById i rows") (simp_all add: adjustCredits_def Let_def u)
  show "owns (fst (setCreditsTotal i n rows)) sess"
    using assms by (cases "getDonationById i rows") (simp_all add: setCreditsTotal_def Let_def u)
  show "owns (fst (setCreditsUsed i n rows)) sess"
    using assms by (cases "getDonationById i rows") (simp_all add: setCreditsUsed_def Let_def u)
qed

lemma owns_createIntent:
  assumes "owns rows sess" and "\<forall>r \<in> set rows. row_id r < i"
  shows "owns (createIntent i intentId t rows) sess"
proof -
  have "i \<notin> row_id ` set rows" using assms(2) by auto
  with assms(1) show ?thesis
    by (simp add: owns_def createIntent_def)
qed

lemma owns_step:
  assumes "step s s'" and "session_owns_active s"
  shows "session_owns_active s'"
  using assms
proof (cases rule: step.cases)
  case scheduler
  with assms(2) show ?thesis by (simp add: owns_scheduler_step)
next
  case (intent i intentId)
  with assms(2) show ?thesis by (simp add: session_owns_active_def owns_createIntent)
next
  case (force_end reason)
  with assms(2) show ?thesis by (simp add: owns_safeForceEndActive)
next
  case (admin_adjust i delta)
  with assms(2) show ?thesis by (simp add: session_owns_active_def owns_credit_ops)
next
  case (admin_total i n)
  with assms(2) show ?thesis by (simp add: session_owns_active_def owns_credit_ops)
next
  case (admin_used i n)
  with assms(2) show ?thesis by (simp add: session_owns_active_def owns_credit_ops)
next
  case (admin_requeue i)
  have "owns (requeueToEnd i (now s) (db s)) (active s)"
    unfolding requeueToEnd_def
    by (rule owns_update_where) (use assms(2) in \<open>simp_all add: session_owns_active_def\<close>)
  with admin_requeue show ?thesis by (simp add: session_owns_active_def)
next
  case (admin_status st i)
  with assms(2) show ?thesis by (simp add: session_owns_active_def owns_status)
next
  case (admin_delete i)
  with assms(2) show ?thesis by (simp add: session_owns_active_def deleteDonationById_def owns_filter)
next
  case admin_delete_all
  then show ?thesis by (simp add: session_owns_active_def deleteAllDonations_def owns_def)
qed

lemma owns_boot:
  assumes "distinct (map row_id rows)"
  shows "session_owns_active (boot rows t)"
proof -
  define f where "f = (\<lambda>r::donation. if status r = Active \<or> status r = Waiting
                then r\<lparr>status := (if credits_total r - credits_used r \<le> 0 then Done else Waiting)\<rparr>
                else r)"
  have c: "recoverAfterRestart rows = map f rows"
    unfolding f_def by (rule recover_closed [OF assms])
  have f: "status (f r) \<noteq> Active" "row_id (f r) = row_id r" for r
    by (simp_all add: f_def)
  have "map row_id (map f rows) = map row_id rows"
    by (simp add: f)
  with assms have "distinct (map row_id (map f rows))" by (simp only:)
  moreover have "\<forall>r \<in> set (map f rows). status r \<noteq> Active"
    by (auto simp: f)
  ultimately show ?thesis
    unfolding session_owns_active_def owns_def boot_def c by simp
qed

lemma reachable_owns: "reachable s \<Longrightarrow> session_owns_active s"
  by (induction rule: reachable.induct) (simp_all add: owns_boot owns_step)

lemma at_most_one_with_id:
  assumes "distinct (map row_id rows)" and "\<forall>r \<in> set rows. P r \<longrightarrow> row_id r = i"
  shows "length (filter P rows) \<le> 1"
  using assms
proof (induction rows)
  case Nil
  then show ?case by simp
next
  case (Cons x xs)
  show ?case
  proof (cases "P x")
    case False
    with Cons show ?thesis by simp
  next
    case True
    with Cons.prems have i: "row_id x = i" "i \<notin> row_id ` set xs" by auto
    have "filter P xs = []"
    proof (rule ccontr)
      assume "filter P xs \<noteq> []"
      then obtain y where "y \<in> set xs" "P y"
        by (metis filter_False)
      with Cons.prems(2) have "row_id y = i" by simp
      with \<open>y \<in> set xs\<close> i(2) show False by (metis imageI)
    qed
    with True show ?thesis by simp
  qed
qed

subsection \<open>The pulsed flag\<close>

lemma keeps_flag_refl [simp]: "keeps_flag rows rows"
  by (simp add: keeps_flag_def list_all2_same)

lemma keeps_flag_trans:
  assumes "keeps_flag a b" and "keeps_flag b c"
  shows "keeps_flag a c"
  unfolding keeps_flag_def
  by (rule list_all2_trans [OF _ assms [unfolded keeps_flag_def]]) simp

lemma keeps_flag_map:
  assumes "\<And>r. row_id (g r) = row_id r" and "\<And>r. credits_pulsed r \<noteq> 0 \<Longrightarrow> credits_pulsed (g r) \<noteq> 0"
  shows "keeps_flag rows (map g rows)"
  unfolding keeps_flag_def list_all2_map2
  by (rule list_all2_same [THEN iffD2]) (simp add: assms)

lemma keeps_flag_update_where:
  assumes "\<And>r. row_id (f r) = row_id r" and "\<And>r. credits_pulsed r \<noteq> 0 \<Longrightarrow> credits_pulsed (f r) \<noteq> 0"
  shows "keeps_flag rows (update_where P f rows)"
  unfolding update_where_def by (rule keeps_flag_map) (simp_all add: assms)

lemma keeps_flag_status [simp]: "keeps_flag rows (setDonationStatus i st rows)"
  unfolding setDonationStatus_def by (rule keeps_flag_update_where) simp_all

lemma keeps_flag_pulsed [simp]: "keeps_flag rows (markCreditsPulsed i rows)"
  unfolding markCreditsPulsed_def by (rule keeps_flag_update_where) simp_all

lemma keeps_flag_use [simp]: "keeps_flag rows (useOneCredit i rows)"
  unfolding useOneCredit_def by (rule keeps_flag_update_where) simp_all

lemma keeps_flag_paid [simp]: "keeps_flag rows (markIntentPaid intentId n t rows)"
  unfolding markIntentPaid_def by (rule keeps_flag_update_where) simp_all

lemma keeps_flag_cleanup [simp]: "keeps_flag rows (maybeStartNext_cleanup rows)"
  unfolding cleanup_map by (rule keeps_flag_map) simp_all

lemma maybeStartNext_db:
  "db (maybeStartNext s) =
     (case active s of
        Some a \<Rightarrow> db s
      | None \<Rightarrow>
          (case find (\<lambda>q. status q = Waiting) (listQueue (maybeStartNext_cleanup (db s))) of
             None \<Rightarrow> maybeStartNext_cleanup (db s)
           | Some nxt \<Rightarrow>
               if credits_pulsed nxt = 0 \<and> credits_total nxt - credits_used nxt > 0
               then markCreditsPulsed (row_id nxt)
                      (setDonationStatus (row_id nxt) Active (maybeStartNext_cleanup (db s)))
               else setDonationStatus (row_id nxt) Active (maybeStartNext_cleanup (db s))))"
  by (simp add: maybeStartNext_closed activate_db split: option.splits)

lemma maybeStartNext_timers:
  "timers (maybeStartNext s) =
     (case active s of
        Some a \<Rightarrow> timers s
      | None \<Rightarrow>
          (case find (\<lambda>q. status q = Waiting) (listQueue (maybeStartNext_cleanup (db s))) of
             None \<Rightarrow> timers s
           | Some nxt \<Rightarrow>
               timers s
               @ map (\<lambda>i. \<lparr>handle = next_handle s + i, due = now s + i * 400, run = CreditPulse\<rparr>)
                   [0..<pulses_due nxt]
               @ [\<lparr>handle = next_handle s + pulses_due nxt, due = now s + FIRST_MOVE_MS,
                   run = FirstMoveTimeout\<rparr>]))"
  by (simp add: maybeStartNext_closed activate_timers split: option.splits)

lemma maybeStartNext_active:
  "active (maybeStartNext s) =
     (case active s of
        Some a \<Rightarrow> Some a
      | None \<Rightarrow>
          (case find (\<lambda>q. status q = Waiting) (listQueue (maybeStartNext_cleanup (db s))) of
             None \<Rightarrow> None
           | Some nxt \<Rightarrow>
               Some \<lparr>donationId = row_id nxt, creditsRemaining = credits_total nxt - credits_used nxt,
                      timer = None, timerStarted = False, creditEndsAt = None,
                      firstMoveDeadline = now s + FIRST_MOVE_MS,
                      firstMoveTimer = Some (next_handle s + pulses_due nxt),
                      hasMoved = False, grabUsed = False, creditSeq = 0, creditConsumed = False\<rparr>))"
  by (simp add: maybeStartNext_closed activate_active split: option.splits)

lemma keeps_flag_maybeStartNext [simp]: "keeps_flag (db s) (db (maybeStartNext s))"
proof -
  have 1: "keeps_flag (db s) (setDonationStatus i Active (maybeStartNext_cleanup (db s)))" for i
    by (rule keeps_flag_trans [OF keeps_flag_cleanup]) simp
  have 2: "keeps_flag (db s) (markCreditsPulsed i (setDonationStatus i Active (maybeStartNext_cleanup (db s))))" for i
    by (rule keeps_flag_trans [OF 1 [of i]]) simp
  show ?thesis
    unfolding maybeStartNext_db by (simp add: 1 2 split: option.splits)
qed


lemma endActivePlayer_eq:
  "endActivePlayer s =
     (case active s of
        None \<Rightarrow> s
      | Some a \<Rightarrow>
          maybeStartNext
            (emit (PlayerEnd (donationId a))
               (emit GpioReleaseAll (clearIfSet (firstMoveTimer a) (clearIfSet (timer a) s))
                \<lparr>db := setDonationStatus (donationId a) Done (db s)\<rparr>)\<lparr>active := None\<rparr>))"
  by (simp add: endActivePlayer_def Let_def split: option.splits)

lemma keeps_flag_endActivePlayer [simp]: "keeps_flag (db s) (db (endActivePlayer s))"
proof (cases "active s")
  case None
  then show ?thesis by (simp add: endActivePlayer_eq)
next
  case (Some a)
  let ?s' = "emit (PlayerEnd (donationId a))
               (emit GpioReleaseAll (clearIfSet (firstMoveTimer a) (clearIfSet (timer a) s))
                \<lparr>db := setDonationStatus (donationId a) Done (db s)\<rparr>)\<lparr>active := None\<rparr>"
  have "keeps_flag (db s) (db ?s')" by simp
  from keeps_flag_trans [OF this keeps_flag_maybeStartNext [of ?s']] Some show ?thesis
    by (simp only: endActivePlayer_eq option.case)
qed

lemma keeps_flag_consume [simp]: "keeps_flag (db s) (db (fst (consumeOneCreditSafely s)))"
  by (simp add: consumeOneCreditSafely_def split: option.splits)

lemma keeps_flag_afterCreditConsumed [simp]: "keeps_flag (db s) (db (afterCreditConsumed s))"
  by (simp add: afterCreditConsumed_def split: option.splits)

lemma keeps_flag_consume_then:
  "keeps_flag (db s) (db (let (s1, consumed) = consumeOneCreditSafely s
                          in if \<not> consumed then s1 else afterCreditConsumed s1))"
  using keeps_flag_trans [OF keeps_flag_consume [of s]
          keeps_flag_afterCreditConsumed [of "fst (consumeOneCreditSafely s)"]]
  by (simp add: split_def Let_def)

lemma keeps_flag_run_callback: "keeps_flag (db s) (db (run_callback cb s))"
proof (cases cb)
  case CreditPulse
  then show ?thesis by (simp add: creditPulseCallback_def)
next
  case FirstMoveTimeout
  then show ?thesis
    by (simp add: firstMoveTimeoutCallback_def Let_def split: option.splits)
next
  case (CreditExpiry mySeq)
  with keeps_flag_consume_then [of s] show ?thesis
    by (simp add: creditExpiryCallback_def finishCreditNormally_def split: option.splits)
next
  case (GrabFinish mySeq)
  with keeps_flag_consume_then [of s] show ?thesis
    by (simp add: grabFinishCallback_def split: option.splits)
qed

lemma keeps_flag_fire: "keeps_flag (db s) (db (fire h s))"
proof (cases "find (\<lambda>t. handle t = h) (timers s)")
  case None
  then show ?thesis by (simp add: fire_def)
next
  case (Some t)
  from keeps_flag_run_callback [of "s\<lparr>timers := filter (\<lambda>t. handle t \<noteq> h) (timers s)\<rparr>" "run t"] Some
  show ?thesis by (simp add: fire_def)
qed

lemma keeps_flag_handlePaidDonation:
  "keeps_flag (db s) (db (fst (handlePaidDonation intentId amountEur s)))"
proof -
  let ?s' = "s\<lparr>db := markIntentPaid intentId (min 5 \<lfloor>amountEur\<rfloor>) (now s) (db s)\<rparr>"
  have "keeps_flag (db s) (db ?s')" by simp
  from keeps_flag_trans [OF this keeps_flag_maybeStartNext [of ?s']] show ?thesis
    by (simp add: handlePaidDonation_def Let_def)
qed

lemma keeps_flag_scheduler_step:
  assumes "scheduler_step s s'"
  shows "keeps_flag (db s) (db s')"
  using assms
proof (cases rule: scheduler_step.cases)
  case (paid intentId amountEur)
  then show ?thesis by (simp add: keeps_flag_handlePaidDonation)
next
  case (timer t)
  then show ?thesis by (simp add: keeps_flag_fire)
qed (simp_all add: heartbeat_def Let_def)

lemma keeps_flag_scheduler_steps:
  "scheduler_step\<^sup>*\<^sup>* s s' \<Longrightarrow> keeps_flag (db s) (db s')"
proof (induction rule: rtranclp_induct)
  case base
  show ?case by simp
next
  case (step y z)
  from keeps_flag_trans [OF step.IH keeps_flag_scheduler_step [OF step.hyps(2)]]
  show ?case .
qed


lemma keeps_flag_ids: "keeps_flag rows rows' \<Longrightarrow> map row_id rows' = map row_id rows"
  unfolding keeps_flag_def
  by (induction rows rows' rule: list_all2_induct) simp_all

lemma keeps_flag_row:
  assumes k: "keeps_flag rows rows'" and d: "distinct (map row_id rows)"
    and r: "r \<in> set rows" "credits_pulsed r \<noteq> 0"
    and r': "r' \<in> set rows'" "row_id r' = row_id r"
  shows "credits_pulsed r' \<noteq> 0"
proof -
  from r'(1) obtain k where k': "k < length rows'" "rows' ! k = r'"
    by (auto simp: in_set_conv_nth)
  from k have len: "length rows = length rows'"
    and R: "row_id (rows' ! k) = row_id (rows ! k)"
           "credits_pulsed (rows ! k) \<noteq> 0 \<longrightarrow> credits_pulsed (rows' ! k) \<noteq> 0"
    using k'(1) by (auto simp: keeps_flag_def list_all2_conv_all_nth)
  have "rows ! k \<in> set rows" using k'(1) len by simp
  from same_id_same_row [OF d this r(1)] R(1) k'(2) r'(2) have "rows ! k = r" by simp
  with R(2) r(2) k'(2) show ?thesis by simp
qed

lemma pulses_due_found:
  assumes "find (\<lambda>q. status q = Waiting) (listQueue (maybeStartNext_cleanup rows)) = Some nxt"
  shows "pulses_due nxt = (if credits_pulsed nxt = 0 then nat (credits_total nxt - credits_used nxt) else 0)"
  using cleanup_no_zero_waiting [of nxt rows] find_waiting_in_table [OF assms]
  by (simp add: pulses_due_def)

lemma pending_pulses_maybeStartNext:
  assumes "active s = None"
    and "find (\<lambda>q. status q = Waiting) (listQueue (maybeStartNext_cleanup (db s))) = Some nxt"
  shows "pending_pulses (maybeStartNext s) = pending_pulses s + pulses_due nxt"
  using assms by (simp add: pending_pulses_def maybeStartNext_timers comp_def)


lemma activation_flag_set:
  assumes f: "find (\<lambda>q. status q = Waiting) (listQueue (maybeStartNext_cleanup (db s))) = Some nxt"
    and n: "active s = None" and d: "distinct (map row_id (db s))"
  shows "\<forall>r \<in> set (db (maybeStartNext s)). row_id r = row_id nxt \<longrightarrow> credits_pulsed r \<noteq> 0"
proof (intro ballI impI)
  fix r assume r: "r \<in> set (db (maybeStartNext s))" and i: "row_id r = row_id nxt"
  let ?C = "maybeStartNext_cleanup (db s)"
  have pos: "credits_total nxt - credits_used nxt > 0" and nC: "nxt \<in> set ?C"
    using cleanup_no_zero_waiting [of nxt "db s"] find_waiting_in_table [OF f] by simp_all
  have dC: "distinct (map row_id ?C)"
    using d keeps_flag_ids [OF keeps_flag_cleanup [of "db s"]] by simp
  show "credits_pulsed r \<noteq> 0"
  proof (cases "credits_pulsed nxt = 0")
    case True
    with r n f pos have "r \<in> set (markCreditsPulsed (row_id nxt) (setDonationStatus (row_id nxt) Active ?C))"
      by (simp add: maybeStartNext_db)
    then show ?thesis unfolding markCreditsPulsed_def
    proof (cases rule: in_set_update_where)
      case (1 r0)
      then show ?thesis by simp
    next
      case 2
      with i show ?thesis by simp
    qed
  next
    case False
    with r n f have "r \<in> set (setDonationStatus (row_id nxt) Active ?C)"
      by (simp add: maybeStartNext_db)
    then show ?thesis unfolding setDonationStatus_def
    proof (cases rule: in_set_update_where)
      case (1 r0)
      from same_id_same_row [OF dC 1(1) nC 1(2)] have "r0 = nxt" .
      with 1(3) False show ?thesis by simp
    next
      case 2
      with i show ?thesis by simp
    qed
  qed
qed

lemma keeps_flag_at:
  assumes k: "keeps_flag rows rows'"
    and f: "\<forall>r \<in> set rows. row_id r = i \<longrightarrow> credits_pulsed r \<noteq> 0"
    and r': "r' \<in> set rows'" "row_id r' = i"
  shows "credits_pulsed r' \<noteq> 0"
proof -
  from r'(1) obtain k where k': "k < length rows'" "rows' ! k = r'"
    by (auto simp: in_set_conv_nth)
  from k have len: "length rows = length rows'"
    and R: "row_id (rows' ! k) = row_id (rows ! k)"
           "credits_pulsed (rows ! k) \<noteq> 0 \<longrightarrow> credits_pulsed (rows' ! k) \<noteq> 0"
    using k'(1) by (auto simp: keeps_flag_def list_all2_conv_all_nth)
  have "rows ! k \<in> set rows" using k'(1) len by simp
  with f R(1) k'(2) r'(2) have "credits_pulsed (rows ! k) \<noteq> 0" by simp
  with R(2) k'(2) show ?thesis by simp
qed

lemma keeps_flag_requeue [simp]: "keeps_flag rows (requeueToEnd i t rows)"
  unfolding requeueToEnd_def by (rule keeps_flag_update_where) simp_all

lemma keeps_flag_credit_ops [simp]:
  "keeps_flag rows (fst (adjustCredits i delta rows))"
  "keeps_flag rows (fst (setCreditsTotal i n rows))"
  "keeps_flag rows (fst (setCreditsUsed i n rows))"
proof -
  have u: "keeps_flag rows (update_where P f rows)"
    if "\<And>r. row_id (f r) = row_id r" "\<And>r. credits_pulsed (f r) = credits_pulsed r" for P f
    by (rule keeps_flag_update_where) (simp_all add: that)
  show "keeps_flag rows (fst (adjustCredits i delta rows))"
    by (cases "getDonationById i rows") (simp_all add: adjustCredits_def Let_def u)
  show "keeps_flag rows (fst (setCreditsTotal i n rows))"
    by (cases "getDonationById i rows") (simp_all add: setCreditsTotal_def Let_def u)
  show "keeps_flag rows (fst (setCreditsUsed i n rows))"
    by (cases "getDonationById i rows") (simp_all add: setCreditsUsed_def Let_def u)
qed

lemma keeps_flag_safeForceEndActive: "keeps_flag (db s) (db (safeForceEndActive reason s))"
proof -
  define s1 where "s1 = (case fst (getActiveState s) of None \<Rightarrow> s
      | Some i \<Rightarrow> if i \<noteq> 0 then s\<lparr>db := setDonationStatus i Done (db s)\<rparr> else s)"
  have "keeps_flag (db s) (db s1)"
    by (simp add: s1_def split: option.splits)
  from keeps_flag_trans [OF this keeps_flag_maybeStartNext [of s1]] show ?thesis
    by (simp add: safeForceEndActive_def Let_def s1_def)
qed

lemma flag_set_step:
  assumes st: "step s s'" and f: "flag_set i (db s)" and r': "r' \<in> set (db s')" "row_id r' = i"
  shows "credits_pulsed r' \<noteq> 0"
proof -
  from f have all: "\<forall>r \<in> set (db s). row_id r = i \<longrightarrow> credits_pulsed r \<noteq> 0"
    and ex: "\<exists>r \<in> set (db s). row_id r = i"
    by (simp_all add: flag_set_def)
  have k: "credits_pulsed r' \<noteq> 0" if "keeps_flag (db s) (db s')"
    by (rule keeps_flag_at [OF that all r'])
  from st show ?thesis
  proof (cases rule: step.cases)
    case scheduler
    then show ?thesis by (intro k keeps_flag_scheduler_step)
  next
    case (intent j intentId)
    from ex intent(2) have "i < j" by auto
    with r' intent(1) have "r' \<in> set (db s)"
      by (auto simp: createIntent_def)
    with all r'(2) show ?thesis by simp
  next
    case (force_end reason)
    then show ?thesis by (intro k) (simp add: keeps_flag_safeForceEndActive)
  next
    case (admin_adjust j delta)
    then show ?thesis by (intro k) simp
  next
    case (admin_total j n)
    then show ?thesis by (intro k) simp
  next
    case (admin_used j n)
    then show ?thesis by (intro k) simp
  next
    case (admin_requeue j)
    then show ?thesis by (intro k) simp
  next
    case (admin_status st j)
    then show ?thesis by (intro k) simp
  next
    case (admin_delete j)
    with r' have "r' \<in> set (db s)" by (simp add: deleteDonationById_def)
    with all r'(2) show ?thesis by simp
  next
    case admin_delete_all
    with r' show ?thesis by (simp add: deleteAllDonations_def)
  qed
qed

lemma flag_set_steps:
  assumes "(step_keeping i)\<^sup>*\<^sup>* s s'" and "flag_set i (db s)"
  shows "flag_set i (db s')"
  using assms
proof (induction rule: rtranclp_induct)
  case base
  then show ?case by simp
next
  case (step y z)
  from step.IH [OF step.prems] have f: "flag_set i (db y)" .
  from step.hyps(2) have st: "step y z" and ex: "\<exists>r \<in> set (db z). row_id r = i"
    by (simp_all add: step_keeping_def)
  from flag_set_step [OF st f] ex show ?case
    by (simp add: flag_set_def)
qed

lemma no_more_pulses:
  assumes f: "flag_set i (db s)" and st: "(step_keeping i)\<^sup>*\<^sup>* s s'" and n: "active s' = None"
    and fd: "find (\<lambda>q. status q = Waiting) (listQueue (maybeStartNext_cleanup (db s'))) = Some nxt"
    and i: "row_id nxt = i"
  shows "pending_pulses (maybeStartNext s') = pending_pulses s'"
    and "map_option donationId (active (maybeStartNext s')) = Some i"
proof -
  from flag_set_steps [OF st f] have "\<forall>r \<in> set (db s'). row_id r = i \<longrightarrow> credits_pulsed r \<noteq> 0"
    by (simp add: flag_set_def)
  moreover have "nxt \<in> set (maybeStartNext_cleanup (db s'))"
    using find_waiting_in_table [OF fd] by simp
  ultimately have "credits_pulsed nxt \<noteq> 0"
    using keeps_flag_at [OF keeps_flag_cleanup [of "db s'"], of i nxt] i by simp
  then have "pulses_due nxt = 0"
    by (simp add: pulses_due_def)
  with pending_pulses_maybeStartNext [OF n fd] show "pending_pulses (maybeStartNext s') = pending_pulses s'"
    by simp
  show "map_option donationId (active (maybeStartNext s')) = Some i"
    using n fd i by (simp add: maybeStartNext_active)
qed

subsection \<open>What activation and the end of a session leave alone\<close>

lemma ended_emit [simp]: "ended i (emit e s) = ended i s + (if e = PlayerEnd i then 1 else 0)"
  by (simp add: ended_def)

lemma ended_trace_cong: "trace s' = trace s \<Longrightarrow> ended i s' = ended i s"
  by (simp add: ended_def)

lemma ended_updates [simp]:
  "ended i (s\<lparr>db := x\<rparr>) = ended i s" "ended i (s\<lparr>active := y\<rparr>) = ended i s"
  "ended i (s\<lparr>timers := z\<rparr>) = ended i s" "ended i (clearIfSet h s) = ended i s"
  "ended i (snd (setTimeout cb d s)) = ended i s" "ended i (scheduleFirstMoveTimeout s) = ended i s"
  by (simp_all add: ended_def)

lemma ended_broadcastQueue [simp]: "ended i (broadcastQueue s) = ended i s"
  by (simp add: broadcastQueue_def)

lemma ended_schedule_pulses [simp]: "ended i (schedule_pulses n s) = ended i s"
  by (simp add: ended_def)

lemma ended_activate [simp]: "ended i (maybeStartNext_activate nxt s) = ended i s"
  by (simp add: maybeStartNext_activate_def Let_def scheduleFirstMoveTimeout_active)

lemma ended_maybeStartNext [simp]: "ended i (maybeStartNext s) = ended i s"
  by (simp add: maybeStartNext_closed split: option.splits)

lemma map_update_where_same:
  assumes "\<And>r. g (f r) = g r"
  shows "map g (update_where P f rows) = map g rows"
  using assms by (simp add: update_where_def)

lemma used_setDonationStatus [simp]:
  "map credits_used (setDonationStatus i st rows) = map credits_used rows"
  unfolding setDonationStatus_def by (rule map_update_where_same) simp

lemma used_markCreditsPulsed [simp]:
  "map credits_used (markCreditsPulsed i rows) = map credits_used rows"
  unfolding markCreditsPulsed_def by (rule map_update_where_same) simp

lemma used_cleanup [simp]:
  "map credits_used (maybeStartNext_cleanup rows) = map credits_used rows"
  unfolding cleanup_map by simp

lemma used_maybeStartNext [simp]:
  "map credits_used (db (maybeStartNext s)) = map credits_used (db s)"
  by (simp add: maybeStartNext_db split: option.splits)

lemma used_endActivePlayer [simp]:
  "map credits_used (db (endActivePlayer s)) = map credits_used (db s)"
  by (simp add: endActivePlayer_eq split: option.splits)

lemma ended_endActivePlayer:
  "active s = Some a \<Longrightarrow> ended i (endActivePlayer s) = ended i s + (if donationId a = i then 1 else 0)"
  by (simp add: endActivePlayer_eq)

lemma fresh_after_maybeStartNext:
  "active s = None \<Longrightarrow> active (maybeStartNext s) = None \<or> map_option creditSeq (active (maybeStartNext s)) = Some 0"
  by (simp add: maybeStartNext_active split: option.splits)

lemma fresh_after_endActivePlayer:
  "active s = Some a \<Longrightarrow>
   active (endActivePlayer s) = None \<or> map_option creditSeq (active (endActivePlayer s)) = Some 0"
proof -
  assume a: "active s = Some a"
  let ?s' = "emit (PlayerEnd (donationId a))
               (emit GpioReleaseAll (clearIfSet (firstMoveTimer a) (clearIfSet (timer a) s))
                \<lparr>db := setDonationStatus (donationId a) Done (db s)\<rparr>)\<lparr>active := None\<rparr>"
  have "active ?s' = None" by simp
  from fresh_after_maybeStartNext [OF this] a show ?thesis
    by (simp only: endActivePlayer_eq option.case)
qed


lemma ids_cleanup [simp]: "map row_id (maybeStartNext_cleanup rows) = map row_id rows"
  unfolding cleanup_map by simp

lemma cleanup_settled:
  assumes d: "distinct (map row_id rows)" and r': "r' \<in> set (maybeStartNext_cleanup rows)"
    and r: "r \<in> set rows" "row_id r = row_id r'" "status r \<noteq> Waiting"
  shows "r' = r"
proof -
  from r' obtain x where x: "x \<in> set rows"
    "r' = (if status x = Waiting \<and> credits_total x - credits_used x \<le> 0 then x\<lparr>status := Done\<rparr> else x)"
    unfolding cleanup_distinct [OF d] by auto
  then have "row_id x = row_id r'" by (simp split: if_splits)
  with same_id_same_row [OF d x(1) r(1)] r(2) have "x = r" by simp
  with x(2) r(3) show ?thesis by simp
qed

lemma maybeStartNext_settled:
  assumes d: "distinct (map row_id (db s))" and r': "r' \<in> set (db (maybeStartNext s))"
    and r: "r \<in> set (db s)" "row_id r = row_id r'" "status r \<noteq> Waiting"
  shows "status r' = status r"
proof (cases "active s")
  case (Some a)
  with r' have "r' \<in> set (db s)" by (simp add: maybeStartNext_db)
  from same_id_same_row [OF d this r(1)] r(2) show ?thesis by simp
next
  case None
  let ?C = "maybeStartNext_cleanup (db s)"
  have dC: "distinct (map row_id ?C)" using d by simp
  show ?thesis
  proof (cases "find (\<lambda>q. status q = Waiting) (listQueue ?C)")
    case f: None
    with None r' have "r' \<in> set ?C" by (simp add: maybeStartNext_db)
    from cleanup_settled [OF d this r] show ?thesis by simp
  next
    case f: (Some nxt)
    have nC: "nxt \<in> set ?C" "status nxt = Waiting"
      using find_waiting_in_table [OF f] by simp_all
    have other: "r0 = r" if "r0 \<in> set ?C" "row_id r0 = row_id r'" for r0
      using cleanup_settled [OF d that(1) r(1) _ r(3)] r(2) that(2) by simp
    have ne: "row_id r' \<noteq> row_id nxt"
    proof
      assume "row_id r' = row_id nxt"
      with other [of nxt] nC have "nxt = r" by simp
      with nC(2) r(3) show False by simp
    qed
    have in_status: "x = r" if "x \<in> set (setDonationStatus (row_id nxt) Active ?C)" "row_id x = row_id r'" for x
      using that(1) unfolding setDonationStatus_def
    proof (cases rule: in_set_update_where)
      case (1 r0)
      with that(2) ne show ?thesis by simp
    next
      case 2
      with other [of x] that(2) show ?thesis by simp
    qed
    have pos: "credits_total nxt - credits_used nxt > 0"
      using cleanup_no_zero_waiting [of nxt "db s"] nC by simp
    have "r' = r"
    proof (cases "credits_pulsed nxt = 0")
      case False
      with None f r' have "r' \<in> set (setDonationStatus (row_id nxt) Active ?C)"
        by (simp add: maybeStartNext_db)
      from in_status [OF this] show ?thesis by simp
    next
      case True
      with None f r' pos have "r' \<in> set (markCreditsPulsed (row_id nxt) (setDonationStatus (row_id nxt) Active ?C))"
        by (simp add: maybeStartNext_db)
      then show ?thesis unfolding markCreditsPulsed_def
      proof (cases rule: in_set_update_where)
        case (1 r0)
        with ne show ?thesis by simp
      next
        case 2
        from in_status [OF 2(1)] show ?thesis by simp
      qed
    qed
    then show ?thesis by simp
  qed
qed

lemma endActivePlayer_done:
  assumes d: "distinct (map row_id (db s))" and a: "active s = Some a"
    and r': "r' \<in> set (db (endActivePlayer s))" "row_id r' = donationId a"
  shows "status r' = Done"
proof -
  define s' where "s' = emit (PlayerEnd (donationId a))
               (emit GpioReleaseAll (clearIfSet (firstMoveTimer a) (clearIfSet (timer a) s))
                \<lparr>db := setDonationStatus (donationId a) Done (db s)\<rparr>)\<lparr>active := None\<rparr>"
  have e: "endActivePlayer s = maybeStartNext s'"
    using a unfolding s'_def by (simp only: endActivePlayer_eq option.case)
  have X: "db s' = setDonationStatus (donationId a) Done (db s)"
    by (simp add: s'_def)
  have dX: "distinct (map row_id (db s'))"
    using d by (simp add: X setDonationStatus_def ids_update_where)
  have ids: "map row_id (db (maybeStartNext s')) = map row_id (db s')"
    by (rule keeps_flag_ids [OF keeps_flag_maybeStartNext])
  from r'(1) have "row_id r' \<in> set (map row_id (db (maybeStartNext s')))"
    unfolding e by (simp only: set_map image_eqI [OF refl])
  then have "row_id r' \<in> set (map row_id (db s'))"
    by (simp only: ids)
  then obtain r where r: "r \<in> set (db s')" "row_id r = row_id r'"
    by auto
  from r(1) have "r \<in> set (setDonationStatus (donationId a) Done (db s))"
    by (simp only: X)
  from status_after_set [OF this] r(2) r'(2) have st: "status r = Done" by simp
  from r'(1) have "r' \<in> set (db (maybeStartNext s'))" by (simp only: e)
  from maybeStartNext_settled [OF dX this r] st show ?thesis by simp
qed

subsection \<open>Timers and their handles\<close>

lemma fire_found:
  "find (\<lambda>t. handle t = h) (timers s) = Some t \<Longrightarrow>
   fire h s = run_callback (run t) (s\<lparr>timers := filter (\<lambda>t. handle t \<noteq> h) (timers s)\<rparr>)"
  by (simp add: fire_def)

lemma fire_absent: "find (\<lambda>t. handle t = h) (timers s) = None \<Longrightarrow> fire h s = s"
  by (simp add: fire_def)

lemma find_handle_None: "(find (\<lambda>t. handle t = h) ts = None) = (\<forall>t \<in> set ts. handle t \<noteq> h)"
  by (auto simp: find_None_iff)

lemma find_handle_last:
  assumes "\<forall>t \<in> set ts. handle t \<noteq> h" and "handle u = h"
  shows "find (\<lambda>t. handle t = h) (ts @ [u]) = Some u"
  using assms by (induction ts) simp_all

lemma move_timers:
  assumes "active s = Some a" and "\<not> timerStarted a"
  shows "timers (startCreditTimerIfNeeded s)
         = timers (clearIfSet (firstMoveTimer a) s)
           @ [\<lparr>handle = next_handle s, due = now s + CREDIT_MS, run = CreditExpiry (creditSeq a + 1)\<rparr>]"
    and "next_handle (startCreditTimerIfNeeded s) = Suc (next_handle s)"
  using assms by (simp_all add: startCreditTimerIfNeeded_def Let_def split_def)

lemma grab_timers:
  assumes "active s = Some a" and "\<not> grabUsed a" and "timerStarted a"
  shows "timers (fst (handleGrabIfAllowed s))
         = timers (clearIfSet (timer a) s)
           @ [\<lparr>handle = next_handle s, due = now s + GRAB_FINISH_MS, run = GrabFinish (creditSeq a + 1)\<rparr>]"
    and "next_handle (fst (handleGrabIfAllowed s)) = Suc (next_handle s)"
  using assms by (simp_all add: handleGrabIfAllowed_def Let_def split_def)

lemma clearIfSet_timers_subset: "set (timers (clearIfSet x s)) \<subseteq> set (timers s)"
  by (cases x) (auto simp: clearIfSet_def)

lemma clearIfSet_timers_Some [simp]:
  "timers (clearIfSet (Some h) s) = filter (\<lambda>t. handle t \<noteq> h) (timers s)"
  by (simp add: clearIfSet_def)

lemma maybeStartNext_next_handle:
  "next_handle s \<le> next_handle (maybeStartNext s)"
  by (simp add: maybeStartNext_closed maybeStartNext_activate_def Let_def scheduleFirstMoveTimeout_def
      split_def split: option.splits)

lemma timers_maybeStartNext_handles:
  assumes "t \<in> set (timers (maybeStartNext s))"
  shows "t \<in> set (timers s) \<or> next_handle s \<le> handle t"
  using assms by (auto simp: maybeStartNext_timers split: option.splits)

lemma timers_endActivePlayer_handles:
  assumes "t \<in> set (timers (endActivePlayer s))"
  shows "t \<in> set (timers s) \<or> next_handle s \<le> handle t"
proof (cases "active s")
  case None
  with assms show ?thesis by (simp add: endActivePlayer_eq)
next
  case (Some a)
  define s' where "s' = emit (PlayerEnd (donationId a))
               (emit GpioReleaseAll (clearIfSet (firstMoveTimer a) (clearIfSet (timer a) s))
                \<lparr>db := setDonationStatus (donationId a) Done (db s)\<rparr>)\<lparr>active := None\<rparr>"
  have e: "endActivePlayer s = maybeStartNext s'"
    using Some unfolding s'_def by (simp only: endActivePlayer_eq option.case)
  have t: "set (timers s') \<subseteq> set (timers s)" and n: "next_handle s' = next_handle s"
    using clearIfSet_timers_subset [of "firstMoveTimer a" "clearIfSet (timer a) s"]
      clearIfSet_timers_subset [of "timer a" s]
    by (auto simp: s'_def)
  from assms timers_maybeStartNext_handles [of t s'] t n show ?thesis
    unfolding e by auto
qed

subsection \<open>A move, a grab, and the end of the last credit\<close>

lemma move_active:
  assumes "active s = Some a" and "\<not> timerStarted a"
  shows "active (startCreditTimerIfNeeded s)
         = Some (a\<lparr>hasMoved := True, firstMoveTimer := None, timerStarted := True,
                   creditEndsAt := Some (now s + CREDIT_MS), creditSeq := creditSeq a + 1,
                   creditConsumed := False, timer := Some (next_handle s)\<rparr>)"
  using assms by (simp add: startCreditTimerIfNeeded_def Let_def split_def)

lemma ended_move [simp]: "ended i (startCreditTimerIfNeeded s) = ended i s"
  by (simp add: startCreditTimerIfNeeded_def Let_def split_def split: option.splits)

lemma grab_accepted:
  assumes "active s = Some a" and "\<not> grabUsed a" and "timerStarted a"
  shows "snd (handleGrabIfAllowed s) = Ok"
    and "active (fst (handleGrabIfAllowed s))
         = Some (a\<lparr>grabUsed := True, creditEndsAt := Some (now s + GRAB_FINISH_MS),
                   creditSeq := creditSeq a + 1, creditConsumed := False,
                   timer := Some (next_handle s)\<rparr>)"
    and "ended i (fst (handleGrabIfAllowed s)) = ended i s"
  using assms by (simp_all add: handleGrabIfAllowed_def Let_def split_def)

lemma grab_finish_last_credit:
  assumes "active s = Some a" and "creditSeq a = mySeq" and "\<not> creditConsumed a"
    and "creditsRemaining a = 1"
  shows "grabFinishCallback mySeq s
         = broadcastQueue (endActivePlayer
             (s\<lparr>db := useOneCredit (donationId a) (db s),
                active := Some (a\<lparr>creditConsumed := True, creditsRemaining := 0\<rparr>)\<rparr>))"
  using assms
  by (simp add: grabFinishCallback_def consumeOneCreditSafely_def afterCreditConsumed_def)


lemma useOneCredit_below_cap:
  assumes "getDonationById i rows = Some row" and "credits_used row < credits_total row"
  shows "getDonationById i (useOneCredit i rows) = Some (row\<lparr>credits_used := credits_used row + 1\<rparr>)"
  using assms by (simp add: useOneCredit_def getDonationById_update_where)

lemma grab_finish_run:
  assumes a: "active x = Some a" and q: "creditSeq a = q" and nc: "\<not> creditConsumed a"
    and one: "creditsRemaining a = 1"
  defines "y \<equiv> grabFinishCallback q x"
  shows "map credits_used (db y) = map credits_used (useOneCredit (donationId a) (db x))"
    and "ended (donationId a) y = ended (donationId a) x + 1"
    and "active y = None \<or> map_option creditSeq (active y) = Some 0"
    and "distinct (map row_id (db x)) \<Longrightarrow> r \<in> set (db y) \<Longrightarrow> row_id r = donationId a \<Longrightarrow> status r = Done"
    and "t \<in> set (timers y) \<Longrightarrow> t \<in> set (timers x) \<or> next_handle x \<le> handle t"
proof -
  define x' where "x' = x\<lparr>db := useOneCredit (donationId a) (db x),
                active := Some (a\<lparr>creditConsumed := True, creditsRemaining := 0\<rparr>)\<rparr>"
  have y: "y = broadcastQueue (endActivePlayer x')"
    unfolding y_def x'_def by (rule grab_finish_last_credit [OF a q nc one])
  have act': "active x' = Some (a\<lparr>creditConsumed := True, creditsRemaining := 0\<rparr>)"
    and db': "db x' = useOneCredit (donationId a) (db x)"
    and e': "ended (donationId a) x' = ended (donationId a) x"
    and t': "timers x' = timers x" "next_handle x' = next_handle x"
    by (simp_all add: x'_def)
  show "map credits_used (db y) = map credits_used (useOneCredit (donationId a) (db x))"
    by (simp add: y db')
  show "ended (donationId a) y = ended (donationId a) x + 1"
    using ended_endActivePlayer [OF act', of "donationId a"] by (simp add: y e')
  show "active y = None \<or> map_option creditSeq (active y) = Some 0"
    using fresh_after_endActivePlayer [OF act'] by (simp add: y)
  show "status r = Done"
    if d: "distinct (map row_id (db x))" and r: "r \<in> set (db y)" "row_id r = donationId a"
  proof -
    have d': "distinct (map row_id (db x'))"
      using d by (simp add: db' useOneCredit_def ids_update_where)
    from r(1) have "r \<in> set (db (endActivePlayer x'))" by (simp add: y)
    from endActivePlayer_done [OF d' act' this] r(2) show "status r = Done"
      by simp
  qed
  show "t \<in> set (timers x) \<or> next_handle x \<le> handle t" if "t \<in> set (timers y)"
    using timers_endActivePlayer_handles [of t x'] that by (simp add: y t')
qed

lemma move_grab_fire:
  assumes a: "active s = Some a" and one: "creditsRemaining a = 1"
    and nt: "\<not> timerStarted a" and ng: "\<not> grabUsed a"
    and fr: "\<forall>t \<in> set (timers s). handle t < next_handle s"
  shows "map_option timer (active (startCreditTimerIfNeeded s)) = Some (Some (next_handle s))"
    and "find (\<lambda>t. handle t = next_handle s) (timers (startCreditTimerIfNeeded s))
         = Some \<lparr>handle = next_handle s, due = now s + CREDIT_MS, run = CreditExpiry (creditSeq a + 1)\<rparr>"
    and "snd (handleGrabIfAllowed (startCreditTimerIfNeeded s)) = Ok"
    and "map_option creditSeq (active (move_then_grab s)) = Some (creditSeq a + 2)"
    and "map_option timer (active (move_then_grab s)) = Some (Some (Suc (next_handle s)))"
    and "find (\<lambda>t. handle t = Suc (next_handle s)) (timers (move_then_grab s))
         = Some \<lparr>handle = Suc (next_handle s), due = now s + GRAB_FINISH_MS,
                  run = GrabFinish (creditSeq a + 2)\<rparr>"
    and "find (\<lambda>t. handle t = next_handle s) (timers (move_then_grab s)) = None"
    and "fire (next_handle s) (move_then_grab s) = move_then_grab s"
    and "creditExpiryCallback (creditSeq a + 1) (move_then_grab s) = move_then_grab s"
    and "map credits_used (db (grab_finished s)) = map credits_used (useOneCredit (donationId a) (db s))"
    and "ended (donationId a) (grab_finished s) = ended (donationId a) s + 1"
    and "distinct (map row_id (db s)) \<longrightarrow>
           (\<forall>r \<in> set (db (grab_finished s)). row_id r = donationId a \<longrightarrow> status r = Done)"
    and "fire (next_handle s) (grab_finished s) = grab_finished s"
    and "fire (Suc (next_handle s)) (grab_finished s) = grab_finished s"
    and "creditExpiryCallback (creditSeq a + 1) (grab_finished s) = grab_finished s"
    and "grabFinishCallback (creditSeq a + 2) (grab_finished s) = grab_finished s"
proof -
  define nh where "nh = next_handle s"
  define T0 where "T0 = timers (clearIfSet (firstMoveTimer a) s)"
  define ct where "ct = \<lparr>handle = nh, due = now s + CREDIT_MS, run = CreditExpiry (creditSeq a + 1)\<rparr>"
  define gt where "gt = \<lparr>handle = Suc nh, due = now s + GRAB_FINISH_MS, run = GrabFinish (creditSeq a + 2)\<rparr>"
  define a1 where "a1 = a\<lparr>hasMoved := True, firstMoveTimer := None, timerStarted := True,
                   creditEndsAt := Some (now s + CREDIT_MS), creditSeq := creditSeq a + 1,
                   creditConsumed := False, timer := Some nh\<rparr>"
  define s1 where "s1 = startCreditTimerIfNeeded s"
  define a2 where "a2 = a1\<lparr>grabUsed := True, creditEndsAt := Some (now s1 + GRAB_FINISH_MS),
                   creditSeq := creditSeq a1 + 1, creditConsumed := False,
                   timer := Some (next_handle s1)\<rparr>"
  define s2 where "s2 = move_then_grab s"
  have T0: "\<forall>t \<in> set T0. handle t < nh"
    using fr clearIfSet_timers_subset [of "firstMoveTimer a" s] by (auto simp: T0_def nh_def)
  have s1: "active s1 = Some a1"
    unfolding s1_def a1_def nh_def by (rule move_active [OF a nt])
  have t1: "timers s1 = T0 @ [ct]" and n1: "next_handle s1 = Suc nh" and now1: "now s1 = now s"
    using move_timers [OF a nt] by (simp_all add: s1_def T0_def ct_def nh_def)
  show "map_option timer (active (startCreditTimerIfNeeded s)) = Some (Some (next_handle s))"
    using s1 by (simp add: s1_def a1_def nh_def)
  have "find (\<lambda>t. handle t = nh) (T0 @ [ct]) = Some ct"
    by (rule find_handle_last) (use T0 in \<open>auto simp: ct_def\<close>)
  then show "find (\<lambda>t. handle t = next_handle s) (timers (startCreditTimerIfNeeded s))
         = Some \<lparr>handle = next_handle s, due = now s + CREDIT_MS, run = CreditExpiry (creditSeq a + 1)\<rparr>"
    using t1 by (simp add: s1_def ct_def nh_def)
  have a1: "\<not> grabUsed a1" "timerStarted a1" "timer a1 = Some nh" "creditSeq a1 = creditSeq a + 1"
    using ng by (simp_all add: a1_def)
  note g = grab_accepted [OF s1 a1(1,2)]
  show "snd (handleGrabIfAllowed (startCreditTimerIfNeeded s)) = Ok"
    using g(1) by (simp only: s1_def)
  have s2: "active s2 = Some a2"
    unfolding s2_def move_then_grab_def a2_def using g(2) by (simp only: s1_def)
  have a2: "creditSeq a2 = creditSeq a + 2" "\<not> creditConsumed a2" "creditsRemaining a2 = 1"
    "donationId a2 = donationId a" "timer a2 = Some (Suc nh)"
    using one by (simp_all add: a2_def a1_def n1)
  have t2: "timers s2 = filter (\<lambda>t. handle t \<noteq> nh) T0 @ [gt]" and n2: "next_handle s2 = Suc (Suc nh)"
    using grab_timers [OF s1 a1(1,2)]
    by (simp_all add: s2_def move_then_grab_def s1_def [symmetric] a1 t1 n1 now1 gt_def ct_def)
  have T0': "filter (\<lambda>t. handle t \<noteq> nh) T0 = T0"
    by (rule filter_True) (use T0 in fastforce)
  show "map_option creditSeq (active (move_then_grab s)) = Some (creditSeq a + 2)"
    using s2 by (simp add: s2_def a2)
  show "map_option timer (active (move_then_grab s)) = Some (Some (Suc (next_handle s)))"
    using s2 by (simp add: s2_def a2 nh_def)
  have fg: "find (\<lambda>t. handle t = Suc nh) (timers s2) = Some gt"
    unfolding t2 T0' by (rule find_handle_last) (use T0 in \<open>auto simp: gt_def\<close>)
  then show "find (\<lambda>t. handle t = Suc (next_handle s)) (timers (move_then_grab s))
         = Some \<lparr>handle = Suc (next_handle s), due = now s + GRAB_FINISH_MS,
                  run = GrabFinish (creditSeq a + 2)\<rparr>"
    by (simp add: s2_def gt_def nh_def)
  have fm: "find (\<lambda>t. handle t = nh) (timers s2) = None"
    unfolding find_handle_None t2 T0' using T0 by (auto simp: gt_def)
  then show "find (\<lambda>t. handle t = next_handle s) (timers (move_then_grab s)) = None"
    by (simp add: s2_def nh_def)
  from fire_absent [OF fm] show "fire (next_handle s) (move_then_grab s) = move_then_grab s"
    by (simp add: s2_def nh_def)
  show "creditExpiryCallback (creditSeq a + 1) (move_then_grab s) = move_then_grab s"
    using s2 by (simp add: creditExpiryCallback_def s2_def a2)
  define x where "x = s2\<lparr>timers := filter (\<lambda>t. handle t \<noteq> Suc nh) (timers s2)\<rparr>"
  have fx: "grab_finished s = grabFinishCallback (creditSeq a + 2) x"
    unfolding grab_finished_def nh_def [symmetric] s2_def [symmetric] x_def
    using fire_found [OF fg] by (simp add: gt_def)
  have db2: "db s2 = db s" by (simp add: s2_def move_then_grab_def)
  have e2: "ended (donationId a) s2 = ended (donationId a) s"
    unfolding s2_def move_then_grab_def using g(3) [of "donationId a"] by (simp add: s1_def)
  have T0'': "filter (\<lambda>t. handle t \<noteq> Suc nh) T0 = T0"
    by (rule filter_True) (use T0 in fastforce)
  have x: "active x = Some a2" "db x = db s" "ended (donationId a) x = ended (donationId a) s"
    "next_handle x = Suc (Suc nh)" "timers x = T0"
    by (simp_all add: x_def s2 db2 e2 n2 t2 T0' T0'' gt_def)
  note r = grab_finish_run [OF x(1) a2(1,2,3), folded fx, unfolded a2(4) x(2,3,4,5)]
  show "map credits_used (db (grab_finished s)) = map credits_used (useOneCredit (donationId a) (db s))"
    by (rule r(1))
  show "ended (donationId a) (grab_finished s) = ended (donationId a) s + 1"
    by (rule r(2))
  show "distinct (map row_id (db s)) \<longrightarrow>
           (\<forall>r \<in> set (db (grab_finished s)). row_id r = donationId a \<longrightarrow> status r = Done)"
    using r(4) by blast
  have h: "handle t \<noteq> nh \<and> handle t \<noteq> Suc nh" if "t \<in> set (timers (grab_finished s))" for t
    using r(5) [OF that] T0 by auto
  have "find (\<lambda>t. handle t = nh) (timers (grab_finished s)) = None"
    "find (\<lambda>t. handle t = Suc nh) (timers (grab_finished s)) = None"
    unfolding find_handle_None using h by auto
  then show "fire (next_handle s) (grab_finished s) = grab_finished s"
    and "fire (Suc (next_handle s)) (grab_finished s) = grab_finished s"
    by (simp_all add: fire_absent nh_def)
  from r(3) show "creditExpiryCallback (creditSeq a + 1) (grab_finished s) = grab_finished s"
    by (auto simp: creditExpiryCallback_def split: option.splits)
  from r(3) show "grabFinishCallback (creditSeq a + 2) (grab_finished s) = grab_finished s"
    by (auto simp: grabFinishCallback_def split: option.splits)
qed


subsection \<open>The first-move timeout\<close>

lemma find_filter: "find P (filter Q xs) = find (\<lambda>x. Q x \<and> P x) xs"
  by (induction xs) simp_all

lemma listQueue_cleanup:
  assumes d: "distinct (map row_id rows)"
  shows "listQueue (maybeStartNext_cleanup rows)
         = filter (\<lambda>r. \<not> (status r = Waiting \<and> credits_total r - credits_used r \<le> 0)) (listQueue rows)"
proof -
  define wb where "wb = (\<lambda>r::donation. status r = Waiting \<and> credits_total r - credits_used r \<le> 0)"
  define g where "g = (\<lambda>r::donation. if wb r then r\<lparr>status := Done\<rparr> else r)"
  define inQ where "inQ = (\<lambda>r::donation. status r = Waiting \<or> status r = Active)"
  have c: "maybeStartNext_cleanup rows = map g rows"
    unfolding g_def wb_def by (rule cleanup_distinct [OF d])
  have 1: "inQ (g r) = (inQ r \<and> \<not> wb r)" for r
    by (auto simp: inQ_def g_def wb_def)
  have 2: "map g (filter (\<lambda>r. inQ r \<and> \<not> wb r) rows) = filter (\<lambda>r. inQ r \<and> \<not> wb r) rows"
    by (rule map_idI) (simp add: g_def)
  have "listQueue (map g rows) = sort_key created_at (filter inQ (map g rows))"
    by (simp add: listQueue_def inQ_def)
  also have "filter inQ (map g rows) = map g (filter (\<lambda>r. inQ r \<and> \<not> wb r) rows)"
    by (simp add: filter_map comp_def 1)
  also have "\<dots> = filter (\<lambda>r. \<not> wb r) (filter inQ rows)"
    by (simp only: 2) (simp add: conj_commute)
  also have "sort_key created_at (filter (\<lambda>r. \<not> wb r) (filter inQ rows))
             = filter (\<lambda>r. \<not> wb r) (sort_key created_at (filter inQ rows))"
    by (rule filter_sort [symmetric])
  finally show ?thesis
    by (simp add: c listQueue_def inQ_def wb_def)
qed

lemma find_waiting_cleanup:
  assumes d: "distinct (map row_id rows)"
  shows "find (\<lambda>q. status q = Waiting) (listQueue (maybeStartNext_cleanup rows)) = nextEligible rows"
  unfolding listQueue_cleanup [OF d] find_filter nextEligible_def
  by (rule arg_cong [where f = "\<lambda>P. find P (listQueue rows)"]) auto


lemma scheduleFirstMoveTimeout_timers:
  "active s = Some a \<Longrightarrow>
   timers (scheduleFirstMoveTimeout s)
   = timers (clearIfSet (firstMoveTimer a) s)
     @ [\<lparr>handle = next_handle s, due = now s + FIRST_MOVE_MS, run = FirstMoveTimeout\<rparr>]"
  by (simp add: scheduleFirstMoveTimeout_def Let_def split_def)

lemma endActivePlayer_next:
  assumes a: "active s = Some a" and d: "distinct (map row_id (db s))"
  shows "map_option donationId (active (endActivePlayer s))
         = map_option row_id (nextEligible (setDonationStatus (donationId a) Done (db s)))"
    and "nextEligible (setDonationStatus (donationId a) Done (db s)) = Some nxt \<Longrightarrow>
         r \<in> set (db (endActivePlayer s)) \<Longrightarrow> row_id r = row_id nxt \<Longrightarrow> status r = Active"
proof -
  define s' where "s' = emit (PlayerEnd (donationId a))
               (emit GpioReleaseAll (clearIfSet (firstMoveTimer a) (clearIfSet (timer a) s))
                \<lparr>db := setDonationStatus (donationId a) Done (db s)\<rparr>)\<lparr>active := None\<rparr>"
  have e: "endActivePlayer s = maybeStartNext s'"
    using a unfolding s'_def by (simp only: endActivePlayer_eq option.case)
  have X: "db s' = setDonationStatus (donationId a) Done (db s)" and n: "active s' = None"
    by (simp_all add: s'_def)
  have dX: "distinct (map row_id (db s'))"
    using d by (simp add: X setDonationStatus_def ids_update_where)
  note f = find_waiting_cleanup [OF dX]
  show "map_option donationId (active (endActivePlayer s))
         = map_option row_id (nextEligible (setDonationStatus (donationId a) Done (db s)))"
    unfolding e X [symmetric] by (simp add: maybeStartNext_active n f split: option.splits)
  assume nx: "nextEligible (setDonationStatus (donationId a) Done (db s)) = Some nxt"
    and r: "r \<in> set (db (endActivePlayer s))" "row_id r = row_id nxt"
  let ?A = "setDonationStatus (row_id nxt) Active (maybeStartNext_cleanup (db s'))"
  have f': "find (\<lambda>q. status q = Waiting) (listQueue (maybeStartNext_cleanup (db s'))) = Some nxt"
    unfolding f unfolding X by (rule nx)
  have pos: "credits_total nxt - credits_used nxt > 0"
    using cleanup_no_zero_waiting [of nxt "db s'"] find_waiting_in_table [OF f'] by simp
  show "status r = Active"
  proof (cases "credits_pulsed nxt = 0")
    case False
    with r(1) have "r \<in> set ?A"
      unfolding e maybeStartNext_db by (simp add: n f')
    from status_after_set [OF this r(2)] show ?thesis .
  next
    case True
    with r(1) pos have "r \<in> set (markCreditsPulsed (row_id nxt) ?A)"
      unfolding e maybeStartNext_db by (simp add: n f')
    then show ?thesis unfolding markCreditsPulsed_def
    proof (cases rule: in_set_update_where)
      case (1 r0)
      from status_after_set [OF 1(1,2)] 1(3) show ?thesis by simp
    next
      case 2
      with r(2) show ?thesis by simp
    qed
  qed
qed

lemma timeout_ends_session:
  assumes a: "active s = Some a" and nm: "\<not> hasMoved a" and d: "distinct (map row_id (db s))"
    and w: "list_ex (\<lambda>q. status q = Waiting \<and> row_id q \<noteq> donationId a) (listQueue (db s))"
  shows "firstMoveTimeoutCallback s
         = emit (PlayerTimeout (donationId a) ''no_first_move'') (endActivePlayer s)"
    and "map credits_used (db (firstMoveTimeoutCallback s)) = map credits_used (db s)"
    and "\<forall>r \<in> set (db (firstMoveTimeoutCallback s)). row_id r = donationId a \<longrightarrow> status r = Done"
    and "ended (donationId a) (firstMoveTimeoutCallback s) = ended (donationId a) s + 1"
    and "map_option donationId (active (firstMoveTimeoutCallback s))
         = map_option row_id (nextEligible (setDonationStatus (donationId a) Done (db s)))"
    and "\<forall>nxt. nextEligible (setDonationStatus (donationId a) Done (db s)) = Some nxt \<longrightarrow>
           (\<forall>r \<in> set (db (firstMoveTimeoutCallback s)). row_id r = row_id nxt \<longrightarrow> status r = Active)"
proof -
  show e: "firstMoveTimeoutCallback s
         = emit (PlayerTimeout (donationId a) ''no_first_move'') (endActivePlayer s)"
    using a nm w by (simp add: firstMoveTimeoutCallback_def)
  show "map credits_used (db (firstMoveTimeoutCallback s)) = map credits_used (db s)"
    by (simp add: e)
  show "\<forall>r \<in> set (db (firstMoveTimeoutCallback s)). row_id r = donationId a \<longrightarrow> status r = Done"
  proof (intro ballI impI)
    fix r assume "r \<in> set (db (firstMoveTimeoutCallback s))" and i: "row_id r = donationId a"
    then have "r \<in> set (db (endActivePlayer s))" by (simp add: e)
    from endActivePlayer_done [OF d a this i] show "status r = Done" .
  qed
  show "ended (donationId a) (firstMoveTimeoutCallback s) = ended (donationId a) s + 1"
    using ended_endActivePlayer [OF a, of "donationId a"] by (simp add: e)
  have act: "active (firstMoveTimeoutCallback s) = active (endActivePlayer s)"
    and dbe: "db (firstMoveTimeoutCallback s) = db (endActivePlayer s)"
    by (simp_all add: e)
  show "map_option donationId (active (firstMoveTimeoutCallback s))
         = map_option row_id (nextEligible (setDonationStatus (donationId a) Done (db s)))"
    unfolding act by (rule endActivePlayer_next(1) [OF a d])
  show "\<forall>nxt. nextEligible (setDonationStatus (donationId a) Done (db s)) = Some nxt \<longrightarrow>
           (\<forall>r \<in> set (db (firstMoveTimeoutCallback s)). row_id r = row_id nxt \<longrightarrow> status r = Active)"
    unfolding dbe
  proof (intro allI impI ballI)
    fix nxt r
    assume "nextEligible (setDonationStatus (donationId a) Done (db s)) = Some nxt"
      and "r \<in> set (db (endActivePlayer s))" and "row_id r = row_id nxt"
    then show "status r = Active" by (rule endActivePlayer_next(2) [OF a d])
  qed
qed

lemma timeout_renews_window:
  assumes a: "active s = Some a" and nm: "\<not> hasMoved a"
    and w: "\<not> list_ex (\<lambda>q. status q = Waiting \<and> row_id q \<noteq> donationId a) (listQueue (db s))"
  shows "firstMoveTimeoutCallback s = broadcastQueue (scheduleFirstMoveTimeout s)"
    and "db (firstMoveTimeoutCallback s) = db s"
    and "active (firstMoveTimeoutCallback s)
         = Some (a\<lparr>firstMoveDeadline := now s + FIRST_MOVE_MS, firstMoveTimer := Some (next_handle s)\<rparr>)"
    and "timers (firstMoveTimeoutCallback s)
         = timers (clearIfSet (firstMoveTimer a) s)
           @ [\<lparr>handle = next_handle s, due = now s + FIRST_MOVE_MS, run = FirstMoveTimeout\<rparr>]"
proof -
  show e: "firstMoveTimeoutCallback s = broadcastQueue (scheduleFirstMoveTimeout s)"
    using a nm w by (simp add: firstMoveTimeoutCallback_def)
  show "db (firstMoveTimeoutCallback s) = db s" by (simp add: e)
  show "active (firstMoveTimeoutCallback s)
         = Some (a\<lparr>firstMoveDeadline := now s + FIRST_MOVE_MS, firstMoveTimer := Some (next_handle s)\<rparr>)"
    using a by (simp add: e scheduleFirstMoveTimeout_active)
  show "timers (firstMoveTimeoutCallback s)
         = timers (clearIfSet (firstMoveTimer a) s)
           @ [\<lparr>handle = next_handle s, due = now s + FIRST_MOVE_MS, run = FirstMoveTimeout\<rparr>]"
    using scheduleFirstMoveTimeout_timers [OF a] by (simp add: e)
qed


lemma created_setDonationStatus [simp]:
  "map created_at (setDonationStatus i st rows) = map created_at rows"
  unfolding setDonationStatus_def by (rule map_update_where_same) simp

lemma created_markCreditsPulsed [simp]:
  "map created_at (markCreditsPulsed i rows) = map created_at rows"
  unfolding markCreditsPulsed_def by (rule map_update_where_same) simp

lemma created_cleanup [simp]:
  "map created_at (maybeStartNext_cleanup rows) = map created_at rows"
  unfolding cleanup_map by simp

lemma created_maybeStartNext [simp]:
  "map created_at (db (maybeStartNext s)) = map created_at (db s)"
  by (simp add: maybeStartNext_db split: option.splits)

lemma created_endActivePlayer [simp]:
  "map created_at (db (endActivePlayer s)) = map created_at (db s)"
  by (simp add: endActivePlayer_eq split: option.splits)

lemma fire_first_move:
  "find (\<lambda>t. handle t = h) (timers s) = Some t \<Longrightarrow> run t = FirstMoveTimeout \<Longrightarrow>
   fire h s = firstMoveTimeoutCallback (s\<lparr>timers := filter (\<lambda>t. handle t \<noteq> h) (timers s)\<rparr>)"
  by (simp add: fire_def)

subsection \<open>Pending timers belong to the live session\<close>

lemma timer_tied_pulse [simp]: "run t = CreditPulse \<Longrightarrow> timer_tied sess t"
  by (simp add: timer_tied_def)


lemma handles_ok_cong:
  "timers s' = timers s \<Longrightarrow> next_handle s' = next_handle s \<Longrightarrow> handles_ok s' = handles_ok s"
  by (simp add: handles_ok_def)

lemma timers_live_cong:
  "timers s' = timers s \<Longrightarrow> next_handle s' = next_handle s \<Longrightarrow> active s' = active s
   \<Longrightarrow> timers_live s' = timers_live s"
  by (simp add: timers_live_def handles_ok_def)

lemma only_pulses_cong: "timers s' = timers s \<Longrightarrow> only_pulses s' = only_pulses s"
  by (simp add: only_pulses_def)

lemma timers_live_simps [simp]:
  "timers_live (s\<lparr>db := x\<rparr>) = timers_live s"
  "timers_live (s\<lparr>now := y\<rparr>) = timers_live s"
  "timers_live (emit e s) = timers_live s"
  "timers_live (broadcastQueue s) = timers_live s"
  by (rule timers_live_cong; simp)+

lemma only_pulses_simps [simp]:
  "only_pulses (s\<lparr>db := x\<rparr>) = only_pulses s"
  "only_pulses (s\<lparr>active := z\<rparr>) = only_pulses s"
  "only_pulses (emit e s) = only_pulses s"
  "only_pulses (broadcastQueue s) = only_pulses s"
  by (rule only_pulses_cong; simp)+






lemma only_pulses_clearIfSet: "only_pulses s \<Longrightarrow> only_pulses (clearIfSet x s)"
  using clearIfSet_timers_subset [of x s] by (auto simp: only_pulses_def)













lemma only_pulses_consume [simp]:
  "only_pulses (fst (consumeOneCreditSafely s)) = only_pulses s"
  by (rule only_pulses_cong) (simp add: consumeOneCreditSafely_def split: option.splits)












lemma timers_consume [simp]: "timers (fst (consumeOneCreditSafely s)) = timers s"
  by (simp add: consumeOneCreditSafely_def split: option.splits)

lemma next_handle_consume [simp]: "next_handle (fst (consumeOneCreditSafely s)) = next_handle s"
  by (simp add: consumeOneCreditSafely_def split: option.splits)











text \<open>Definitions to unfold when a concrete state is evaluated.\<close>

lemma upt_numeral_unfold: "[m..<numeral k] = (if m < numeral k then m # [Suc m..<numeral k] else [])"
  by (rule upt_rec)

lemmas ledger_defs = update_where_def getDonationById_def markIntentPaid_def setDonationStatus_def
  requeueToEnd_def markCreditsPulsed_def useOneCredit_def listQueue_def

lemmas sched_defs = setTimeout_def clearTimeout_def clearIfSet_def emit_def broadcastQueue_def
  scheduleFirstMoveTimeout_def maybeStartNext_cleanup_def schedule_pulses_def
  maybeStartNext_activate_def maybeStartNext_closed endActivePlayer_def startCreditTimerIfNeeded_def
  consumeOneCreditSafely_def afterCreditConsumed_def finishCreditNormally_def handleGrabIfAllowed_def
  creditExpiryCallback_def grabFinishCallback_def firstMoveTimeoutCallback_def creditPulseCallback_def
  fire_def getActiveState_def CREDIT_MS_def FIRST_MOVE_MS_def GRAB_FINISH_MS_def
  Let_def enumerate_eq_zip upt_numeral_unfold

lemma started_example_reached: "maybeStartNext (boot queue_example 0) = started_example"
  by (simp add: boot_def recoverAfterRestart_def queue_example_def started_example_def
      ledger_defs sched_defs)

section \<open>The example run\<close>

lemma timed_out_example_value:
  "timed_out_example =
     \<lparr>db = [\<lparr>row_id = 1, intent_id = Some ''a'', credits_total = 2, credits_used =
     0, credits_pulsed = 1, status = Done, created_at = 10\<rparr>, \<lparr>row_id = 2, intent_id
     = Some ''b'', credits_total = 1, credits_used = 0, credits_pulsed = 1, status = Active,
     created_at = 20\<rparr>], active = Some \<lparr>donationId = 2, creditsRemaining = 1, timer
     = None, timerStarted = False, creditEndsAt = None, firstMoveDeadline = 30000, firstMoveTimer
     = Some 4, hasMoved = False, grabUsed = False, creditSeq = 0, creditConsumed = False\<rparr>,
     timers = [\<lparr>handle = 0, due = 0, run = CreditPulse\<rparr>, \<lparr>handle = 1, due =
     400, run = CreditPulse\<rparr>, \<lparr>handle = 3, due = 15000, run = CreditPulse\<rparr>,
     \<lparr>handle = 4, due = 30000, run = FirstMoveTimeout\<rparr>], next_handle = 5, now =
     15000, trace = [QueueUpdate (Some 1) None (Some 15000) [(1, 2, Active, 1), (2, 1, Waiting,
     2)], PlayerStart 1 2 15000, GpioReleaseAll, PlayerEnd 1, QueueUpdate (Some 2) None (Some
     30000) [(2, 1, Active, 1)], PlayerStart 2 1 30000, PlayerTimeout 1
     ''no_first_move'']\<rparr>"
  by (simp add: timed_out_example_def due_example_def started_example_def ledger_defs sched_defs)

lemma b_moved_example_value:
  "b_moved_example =
     \<lparr>db = [\<lparr>row_id = 1, intent_id = Some ''a'', credits_total = 2, credits_used =
     0, credits_pulsed = 1, status = Done, created_at = 10\<rparr>, \<lparr>row_id = 2, intent_id
     = Some ''b'', credits_total = 1, credits_used = 0, credits_pulsed = 1, status = Active,
     created_at = 20\<rparr>], active = Some \<lparr>donationId = 2, creditsRemaining = 1, timer
     = Some 5, timerStarted = True, creditEndsAt = Some 50000, firstMoveDeadline = 30000,
     firstMoveTimer = None, hasMoved = True, grabUsed = False, creditSeq = 1, creditConsumed =
     False\<rparr>, timers = [\<lparr>handle = 0, due = 0, run = CreditPulse\<rparr>,
     \<lparr>handle = 1, due = 400, run = CreditPulse\<rparr>, \<lparr>handle = 3, due = 15000,
     run = CreditPulse\<rparr>, \<lparr>handle = 5, due = 50000, run = CreditExpiry 1\<rparr>],
     next_handle = 6, now = 15000, trace = [QueueUpdate (Some 1) None (Some 15000) [(1, 2,
     Active, 1), (2, 1, Waiting, 2)], PlayerStart 1 2 15000, GpioReleaseAll, PlayerEnd 1,
     QueueUpdate (Some 2) None (Some 30000) [(2, 1, Active, 1)], PlayerStart 2 1 30000,
     PlayerTimeout 1 ''no_first_move'', CreditStart 2 (Some 50000) 1]\<rparr>"
  by (simp add: b_moved_example_def timed_out_example_value sched_defs)

lemma b_played_example_value:
  "b_played_example =
     \<lparr>db = [\<lparr>row_id = 1, intent_id = Some ''a'', credits_total = 2, credits_used =
     0, credits_pulsed = 1, status = Done, created_at = 10\<rparr>, \<lparr>row_id = 2, intent_id
     = Some ''b'', credits_total = 1, credits_used = 1, credits_pulsed = 1, status = Done,
     created_at = 20\<rparr>], active = None, timers = [\<lparr>handle = 0, due = 0, run =
     CreditPulse\<rparr>, \<lparr>handle = 1, due = 400, run = CreditPulse\<rparr>,
     \<lparr>handle = 3, due = 15000, run = CreditPulse\<rparr>], next_handle = 6, now = 50000,
     trace = [QueueUpdate (Some 1) None (Some 15000) [(1, 2, Active, 1), (2, 1, Waiting, 2)],
     PlayerStart 1 2 15000, GpioReleaseAll, PlayerEnd 1, QueueUpdate (Some 2) None (Some 30000)
     [(2, 1, Active, 1)], PlayerStart 2 1 30000, PlayerTimeout 1 ''no_first_move'', CreditStart 2
     (Some 50000) 1, GpioReleaseAll, PlayerEnd 2, QueueUpdate None None None [], QueueUpdate None
     None None []]\<rparr>"
  by (simp add: b_played_example_def b_due_example_def b_moved_example_value ledger_defs sched_defs)

lemma requeued_example_value:
  "requeued_example =
     \<lparr>db = [\<lparr>row_id = 1, intent_id = Some ''a'', credits_total = 2, credits_used =
     0, credits_pulsed = 1, status = Waiting, created_at = 50000\<rparr>, \<lparr>row_id = 2,
     intent_id = Some ''b'', credits_total = 1, credits_used = 1, credits_pulsed = 1, status =
     Done, created_at = 20\<rparr>], active = None, timers = [\<lparr>handle = 0, due = 0, run =
     CreditPulse\<rparr>, \<lparr>handle = 1, due = 400, run = CreditPulse\<rparr>,
     \<lparr>handle = 3, due = 15000, run = CreditPulse\<rparr>], next_handle = 6, now = 50000,
     trace = [QueueUpdate (Some 1) None (Some 15000) [(1, 2, Active, 1), (2, 1, Waiting, 2)],
     PlayerStart 1 2 15000, GpioReleaseAll, PlayerEnd 1, QueueUpdate (Some 2) None (Some 30000)
     [(2, 1, Active, 1)], PlayerStart 2 1 30000, PlayerTimeout 1 ''no_first_move'', CreditStart 2
     (Some 50000) 1, GpioReleaseAll, PlayerEnd 2, QueueUpdate None None None [], QueueUpdate None
     None None []]\<rparr>"
  by (simp add: requeued_example_def b_played_example_value ledger_defs)

lemma sole_example_value:
  "sole_example =
     \<lparr>db = [\<lparr>row_id = 1, intent_id = Some ''a'', credits_total = 2, credits_used =
     0, credits_pulsed = 1, status = Active, created_at = 50000\<rparr>, \<lparr>row_id = 2,
     intent_id = Some ''b'', credits_total = 1, credits_used = 1, credits_pulsed = 1, status =
     Done, created_at = 20\<rparr>], active = Some \<lparr>donationId = 1, creditsRemaining = 2,
     timer = None, timerStarted = False, creditEndsAt = None, firstMoveDeadline = 65000,
     firstMoveTimer = Some 6, hasMoved = False, grabUsed = False, creditSeq = 0, creditConsumed =
     False\<rparr>, timers = [\<lparr>handle = 0, due = 0, run = CreditPulse\<rparr>,
     \<lparr>handle = 1, due = 400, run = CreditPulse\<rparr>, \<lparr>handle = 3, due = 15000,
     run = CreditPulse\<rparr>, \<lparr>handle = 6, due = 65000, run = FirstMoveTimeout\<rparr>],
     next_handle = 7, now = 50000, trace = [QueueUpdate (Some 1) None (Some 15000) [(1, 2,
     Active, 1), (2, 1, Waiting, 2)], PlayerStart 1 2 15000, GpioReleaseAll, PlayerEnd 1,
     QueueUpdate (Some 2) None (Some 30000) [(2, 1, Active, 1)], PlayerStart 2 1 30000,
     PlayerTimeout 1 ''no_first_move'', CreditStart 2 (Some 50000) 1, GpioReleaseAll, PlayerEnd
     2, QueueUpdate None None None [], QueueUpdate None None None [], QueueUpdate (Some 1) None
     (Some 65000) [(1, 2, Active, 1)], PlayerStart 1 2 65000]\<rparr>"
  by (simp add: sole_example_def requeued_example_value ledger_defs sched_defs)

lemma due_example_facts:
  "\<lparr>handle = 2, due = 15000, run = FirstMoveTimeout\<rparr> \<in> set (timers due_example)"
  "now due_example = 15000" "map row_id (db due_example) = [1, 2]"
  by (simp_all add: due_example_def started_example_def)

lemma timed_out_example_facts:
  "map row_id (db timed_out_example) = [1, 2]"
  by (simp_all add: timed_out_example_value)

lemma b_moved_example_facts:
  "map row_id (db b_moved_example) = [1, 2]"
  "now b_moved_example = 15000"
  by (simp_all add: b_moved_example_value)

lemma b_due_example_facts:
  "map row_id (db b_due_example) = [1, 2]"
  "\<lparr>handle = 5, due = 50000, run = CreditExpiry 1\<rparr> \<in> set (timers b_due_example)"
  "now b_due_example = 50000"
  by (simp_all add: b_due_example_def b_moved_example_value)

lemma b_played_example_facts:
  "map row_id (db b_played_example) = [1, 2]"
  by (simp_all add: b_played_example_value)

lemma requeued_example_facts:
  "map row_id (db requeued_example) = [1, 2]"
  "map status (db requeued_example) = [Waiting, Done]"
  "map credits_pulsed (db requeued_example) = [1, 1]"
  "active requeued_example = None"
  "pending_pulses requeued_example = 3"
  "find (\<lambda>q. status q = Waiting) (listQueue (maybeStartNext_cleanup (db requeued_example)))
   = Some (hd (db requeued_example))"
  "row_id (hd (db requeued_example)) = 1"
  by (simp_all add: requeued_example_value pending_pulses_def ledger_defs sched_defs)

lemma started_example_reachable: "reachable started_example"
proof -
  have "reachable (boot queue_example 0)"
    by (rule reachable.booted) (simp add: queue_example_def)
  then have "reachable (maybeStartNext (boot queue_example 0))"
    by (rule reachable.stepped) (rule step.scheduler, rule scheduler_step.start_next)
  then show ?thesis by (simp only: started_example_reached)
qed

lemma run_steps:
  "step_keeping 1 started_example due_example"
  "step_keeping 1 due_example timed_out_example"
  "step_keeping 1 timed_out_example b_moved_example"
  "step_keeping 1 b_moved_example b_due_example"
  "step_keeping 1 b_due_example b_played_example"
  "step_keeping 1 b_played_example requeued_example"
proof -
  have p: "\<exists>r \<in> set rows. row_id r = 1" if "map row_id rows = [1, 2]" for rows :: table
  proof -
    have "1 \<in> set (map row_id rows)" by (simp add: that)
    then show ?thesis by auto
  qed
  show "step_keeping 1 started_example due_example"
    unfolding step_keeping_def due_example_def
    by (intro conjI step.scheduler scheduler_step.clock) (simp_all add: started_example_def)
  show "step_keeping 1 due_example timed_out_example"
    unfolding step_keeping_def
  proof
    have "scheduler_step due_example (fire (handle \<lparr>handle = 2, due = 15000, run = FirstMoveTimeout\<rparr>) due_example)"
      by (rule scheduler_step.timer [OF due_example_facts(1)]) (simp add: due_example_facts)
    then show "step due_example timed_out_example"
      by (simp add: timed_out_example_def step.scheduler)
    show "\<exists>r \<in> set (db timed_out_example). row_id r = 1"
      by (rule p) (rule timed_out_example_facts)
  qed
  show "step_keeping 1 timed_out_example b_moved_example"
    unfolding step_keeping_def b_moved_example_def
    by (intro conjI step.scheduler scheduler_step.move p)
       (rule b_moved_example_facts [unfolded b_moved_example_def])
  show "step_keeping 1 b_moved_example b_due_example"
    unfolding step_keeping_def b_due_example_def
    by (intro conjI step.scheduler scheduler_step.clock p)
       (simp_all add: b_moved_example_facts)
  show "step_keeping 1 b_due_example b_played_example"
    unfolding step_keeping_def
  proof
    have "scheduler_step b_due_example (fire (handle \<lparr>handle = 5, due = 50000, run = CreditExpiry 1\<rparr>) b_due_example)"
      by (rule scheduler_step.timer [OF b_due_example_facts(2)]) (simp add: b_due_example_facts)
    then show "step b_due_example b_played_example"
      by (simp add: b_played_example_def step.scheduler)
    show "\<exists>r \<in> set (db b_played_example). row_id r = 1"
      by (rule p) (rule b_played_example_facts)
  qed
  show "step_keeping 1 b_played_example requeued_example"
    unfolding step_keeping_def
  proof
    show "step b_played_example requeued_example"
      unfolding requeued_example_def by (rule step.admin_requeue)
    show "\<exists>r \<in> set (db requeued_example). row_id r = 1"
      by (rule p) (rule requeued_example_facts)
  qed
qed


lemma requeue_run: "(step_keeping 1)\<^sup>*\<^sup>* started_example requeued_example"
  using run_steps by (meson rtranclp.rtrancl_into_rtrancl rtranclp.rtrancl_refl)



lemma started_flag: "flag_set 1 (db started_example)"
  by (simp add: flag_set_def started_example_def)

section \<open>The credit invariant of the ledger\<close>

text \<open>
  As long as every credit value of the table is below \<open>2 ^ 53\<close> in magnitude, the clamps
  do what their comments say. On a table with unique ids whose rows satisfy
  \<open>0 \<le> credits_used \<le> credits_total\<close>, each credit operation leaves a table whose rows
  all satisfy it again; consuming a credit of a row that is at its cap leaves the row as it
  is, the new total is the requested one raised to at least 0 and at least \<open>credits_used\<close>,
  and the new used count is the requested one clamped into \<open>[0, credits_total]\<close>.
\<close>

lemma credits_kept_in_safe_range:
  assumes "table_ok rows" and "distinct (map row_id rows)" and "safe_credits rows"
  shows "table_ok (useOneCredit i rows)
       \<and> table_ok (fst (adjustCredits i delta rows))
       \<and> table_ok (fst (setCreditsTotal i n rows))
       \<and> table_ok (fst (setCreditsUsed i m rows))
       \<and> (\<forall>row. getDonationById i rows = Some row \<longrightarrow>
            (credits_used row = credits_total row \<longrightarrow> getDonationById i (useOneCredit i rows) = Some row)
          \<and> snd (adjustCredits i delta rows)
              = Some (row\<lparr>credits_total := max (max 0 (js_number (credits_total row + delta))) (credits_used row)\<rparr>)
          \<and> snd (setCreditsTotal i n rows)
              = Some (row\<lparr>credits_total := max (max 0 n) (credits_used row)\<rparr>)
          \<and> snd (setCreditsUsed i m rows)
              = Some (row\<lparr>credits_used := max 0 (min m (credits_total row))\<rparr>)
          \<and> 0 \<le> max 0 (min m (credits_total row))
          \<and> max 0 (min m (credits_total row)) \<le> credits_total row)"
proof -
  have "0 \<le> credits_total row" if "getDonationById i rows = Some row" for row
    using find_id_mem [OF that] assms(1) by (auto simp: table_ok_def list_all_iff credits_ok_def)
  then show ?thesis
    using assms useOneCredit_ok adjustCredits_ok setCreditsTotal_ok setCreditsUsed_ok
      useOneCredit_at_cap adjustCredits_row setCreditsTotal_row setCreditsUsed_row
    by simp
qed

lemma overdrawn_example_value:
  "fst (setCreditsTotal 1 18014398509481984 paid_example)
   = [\<lparr>row_id = 1, intent_id = Some ''a'', credits_total = 18014398509481984, credits_used = 0,
        credits_pulsed = 1, status = Waiting, created_at = 10\<rparr>]"
  "fst (setCreditsUsed 1 9007199254740992 (fst (setCreditsTotal 1 18014398509481984 paid_example)))
   = [\<lparr>row_id = 1, intent_id = Some ''a'', credits_total = 18014398509481984,
        credits_used = 9007199254740992, credits_pulsed = 1, status = Waiting, created_at = 10\<rparr>]"
  "overdrawn_example
   = [\<lparr>row_id = 1, intent_id = Some ''a'', credits_total = 18014398509481984,
        credits_used = 9007199254740993, credits_pulsed = 1, status = Waiting, created_at = 10\<rparr>]"
  by (simp_all add: overdrawn_example_def paid_example_def setCreditsTotal_def setCreditsUsed_def
      js_number_def js_shift_numeral ledger_defs)

text \<open>
  Claim C9 fails on the code beyond \<open>2 ^ 53\<close>. From one paid row with 5 credits, all
  unused, the persistence layer alone reaches a row that it then takes out of the invariant:
  \<open>setCreditsTotal(1, 2 ^ 54)\<close>, \<open>setCreditsUsed(1, 2 ^ 53)\<close> and one \<open>useOneCredit(1)\<close>
  keep the invariant and leave \<open>credits_used = 2 ^ 53 + 1\<close>, which SQL computes exactly and
  which is not a double. \<open>adjustCredits(1, - 2 ^ 54)\<close> then reads \<open>credits_used\<close> as
  \<open>2 ^ 53\<close> and clamps the total to that: the row ends with \<open>credits_total = 2 ^ 53\<close>,
  one below \<open>credits_used\<close>. \<open>setCreditsTotal(1, 0)\<close> does the same. The comment of
  \<open>adjustCredits\<close> promises a total clamped to at least \<open>credits_used\<close>.
\<close>

theorem clamp_misses_rounded_used:
  "table_ok paid_example
   \<and> table_ok (fst (setCreditsTotal 1 18014398509481984 paid_example))
   \<and> table_ok (fst (setCreditsUsed 1 9007199254740992
                      (fst (setCreditsTotal 1 18014398509481984 paid_example))))
   \<and> table_ok overdrawn_example
   \<and> map (\<lambda>r. (credits_used r, credits_total r)) overdrawn_example
       = [(9007199254740993, 18014398509481984)]
   \<and> map (\<lambda>r. (credits_used r, credits_total r))
         (fst (adjustCredits 1 (- 18014398509481984) overdrawn_example))
       = [(9007199254740993, 9007199254740992)]
   \<and> \<not> table_ok (fst (adjustCredits 1 (- 18014398509481984) overdrawn_example))
   \<and> map (\<lambda>r. (credits_used r, credits_total r)) (fst (setCreditsTotal 1 0 overdrawn_example))
       = [(9007199254740993, 9007199254740992)]
   \<and> \<not> table_ok (fst (setCreditsTotal 1 0 overdrawn_example))"
  unfolding overdrawn_example_value
  by (simp add: paid_example_def adjustCredits_def setCreditsTotal_def setCreditsUsed_def
      table_ok_def credits_ok_def js_number_def js_shift_numeral ledger_defs)

section \<open>Rejected grabs\<close>

text \<open>
  Claim C7, as amended. \<open>handleGrabIfAllowed\<close> returns the rejection
  \<open>{ ok: false, error: 'no_active' }\<close> when there is no session and
  \<open>{ ok: false, error: 'grab_already_used' }\<close> when \<open>grabUsed\<close> is set; in both cases the
  whole state is the one it was called in: every field of the session, the table, the pending
  timers and the effects.
\<close>

theorem grab_rejections_leave_state:
  "(active s = None \<longrightarrow> handleGrabIfAllowed s = (s, Rejected ''no_active''))
   \<and> (\<forall>a. active s = Some a \<and> grabUsed a \<longrightarrow>
          handleGrabIfAllowed s = (s, Rejected ''grab_already_used''))"
  by (simp add: handleGrabIfAllowed_def)

theorem grab_rejections_leave_state_witness:
  "active (boot [] 0) = None
   \<and> handleGrabIfAllowed (boot [] 0) = (boot [] 0, Rejected ''no_active'')
   \<and> map_option grabUsed (active grabbed_example) = Some True
   \<and> handleGrabIfAllowed grabbed_example = (grabbed_example, Rejected ''grab_already_used'')"
proof -
  have n: "active (boot [] 0) = None"
    by (simp add: boot_def)
  obtain a where a: "active grabbed_example = Some a" "grabUsed a"
    by (simp add: grabbed_example_def started_example_def ledger_defs sched_defs)
  show ?thesis
    using grab_rejections_leave_state [of "boot [] 0"] grab_rejections_leave_state [of grabbed_example] n a
    by simp
qed

text \<open>
  The claim as stated names the first error \<open>no_active_session\<close>; the code returns
  \<open>no_active\<close>.
\<close>

theorem grab_without_session_error_name:
  "snd (handleGrabIfAllowed (boot [] 0)) = Rejected ''no_active''
   \<and> snd (handleGrabIfAllowed (boot [] 0)) \<noteq> Rejected ''no_active_session''"
  by (simp add: handleGrabIfAllowed_def boot_def)

section \<open>Stale timer callbacks\<close>




section \<open>The administrative force-end\<close>

text \<open>
  Claim C8 fails on the code. With A in session and B waiting (\<open>started_example\<close>), the
  force-end of the admin router marks A done in the table and nothing more: the session of A
  stays in memory, its first-move timer stays set, the actuator's release-all is not called
  and B is not started, since \<open>maybeStartNext\<close> returns at once while a session exists.
  \<open>endActivePlayer\<close>, which the game module keeps to itself, does all of it on the same
  state.
\<close>

theorem force_end_leaves_session:
  "active (safeForceEndActive ''admin_end'' started_example) = active started_example
   \<and> map_option donationId (active (safeForceEndActive ''admin_end'' started_example)) = Some 1
   \<and> timers (safeForceEndActive ''admin_end'' started_example) = timers started_example
   \<and> GpioReleaseAll \<notin> set (trace (safeForceEndActive ''admin_end'' started_example))
   \<and> map status (db (safeForceEndActive ''admin_end'' started_example)) = [Done, Waiting]
   \<and> map_option donationId (active (endActivePlayer started_example)) = Some 2
   \<and> map handle (filter (\<lambda>t. run t \<noteq> CreditPulse) (timers (endActivePlayer started_example))) = [4]
   \<and> GpioReleaseAll \<in> set (trace (endActivePlayer started_example))
   \<and> map status (db (endActivePlayer started_example)) = [Done, Active]"
  by (simp add: safeForceEndActive_def started_example_def ledger_defs sched_defs)

section \<open>Boot recovery\<close>




section \<open>Termination of the activation step\<close>

lemma empty_handed_run:
  "map status (db (maybeStartNext (boot [] 0\<lparr>db := empty_handed_example\<rparr>))) = [Done, Done, Done]"
  "active (maybeStartNext (boot [] 0\<lparr>db := empty_handed_example\<rparr>)) = None"
  by (simp_all add: boot_def empty_handed_example_def ledger_defs sched_defs)

text \<open>
  Claim C10. \<open>maybeStartNext\<close> is a total function: its recursive call is made on a table in
  which the chosen waiting row has been marked done, hence with fewer waiting rows. Counting
  the calls, one more than the number of waiting rows is always enough, whatever the credits
  of the waiting rows are.
\<close>

theorem activation_terminates:
  "(\<forall>nxt. find (\<lambda>q. status q = Waiting) (listQueue rows) = Some nxt \<longrightarrow>
        waiting_count (setDonationStatus (row_id nxt) Done rows) < waiting_count rows)
   \<and> (\<forall>n. waiting_count (db s) < n \<longrightarrow> maybeStartNext_fuel n s = Some (maybeStartNext s))"
proof (intro conjI allI impI)
  fix nxt assume "find (\<lambda>q. status q = Waiting) (listQueue rows) = Some nxt"
  from find_waiting_in_table [OF this]
  show "waiting_count (setDonationStatus (row_id nxt) Done rows) < waiting_count rows"
    by (intro waiting_count_done_less [of nxt]) simp_all
next
  fix n assume "waiting_count (db s) < n"
  then show "maybeStartNext_fuel n s = Some (maybeStartNext s)"
  proof (induction n arbitrary: s)
    case 0
    then show ?case by simp
  next
    case (Suc n)
    show ?case
    proof (cases "active s")
      case (Some a)
      then show ?thesis by (simp add: maybeStartNext.simps [of s])
    next
      case None
      show ?thesis
      proof (cases "find (\<lambda>q. status q = Waiting) (listQueue (maybeStartNext_cleanup (db s)))")
        case f: None
        with None show ?thesis by (simp add: maybeStartNext.simps [of s])
      next
        case f: (Some nxt)
        let ?s' = "s\<lparr>db := setDonationStatus (row_id nxt) Done (maybeStartNext_cleanup (db s))\<rparr>"
        have "waiting_count (db ?s') < waiting_count (maybeStartNext_cleanup (db s))"
          using find_waiting_in_table [OF f] by (simp add: waiting_count_done_less [of nxt])
        also have "\<dots> \<le> waiting_count (db s)" by (rule waiting_count_cleanup)
        finally have "waiting_count (db ?s') < n" using Suc.prems by simp
        from Suc.IH [OF this] None f show ?thesis
          by (simp add: maybeStartNext.simps [of s])
      qed
    qed
  qed
qed



theorem activation_terminates_witness:
  "find (\<lambda>q. status q = Waiting) (listQueue empty_handed_example) = Some (hd empty_handed_example)
   \<and> waiting_count empty_handed_example = 3
   \<and> waiting_count (setDonationStatus (row_id (hd empty_handed_example)) Done empty_handed_example) < 3
   \<and> maybeStartNext_fuel 4 (boot [] 0\<lparr>db := empty_handed_example\<rparr>)
       = Some (maybeStartNext (boot [] 0\<lparr>db := empty_handed_example\<rparr>))
   \<and> map status (db (maybeStartNext (boot [] 0\<lparr>db := empty_handed_example\<rparr>))) = [Done, Done, Done]
   \<and> active (maybeStartNext (boot [] 0\<lparr>db := empty_handed_example\<rparr>)) = None"
proof -
  note th = activation_terminates [of empty_handed_example "boot [] 0\<lparr>db := empty_handed_example\<rparr>"]
  have f: "find (\<lambda>q. status q = Waiting) (listQueue empty_handed_example) = Some (hd empty_handed_example)"
    by (simp add: empty_handed_example_def ledger_defs)
  have w: "waiting_count empty_handed_example = 3"
    by (simp add: empty_handed_example_def waiting_count_def)
  have w': "waiting_count (db (boot [] 0\<lparr>db := empty_handed_example\<rparr>)) < 4"
    by (simp add: w)
  have 1: "waiting_count (setDonationStatus (row_id (hd empty_handed_example)) Done empty_handed_example) < 3"
    using th [THEN conjunct1, rule_format, OF f] by (simp only: w)
  have 2: "maybeStartNext_fuel 4 (boot [] 0\<lparr>db := empty_handed_example\<rparr>)
       = Some (maybeStartNext (boot [] 0\<lparr>db := empty_handed_example\<rparr>))"
    by (rule th [THEN conjunct2, rule_format, OF w'])
  from f w 1 2 empty_handed_run show ?thesis by blast
qed


section \<open>One session, one active row\<close>

text \<open>
  Claim C3. The session is one variable that holds a session or nothing, so there is never
  more than one. In every state that the process can reach from a boot on a table with unique
  ids, at most one row has the status \<open>active\<close>, and a row that has it is the row of the
  session in memory. \<open>maybeStartNext\<close> returns the state as it is while a session
  exists: it creates a session only when there is none.
\<close>

theorem one_session_one_active_row:
  assumes "reachable s"
  shows "length (filter (\<lambda>r. status r = Active) (db s)) \<le> 1
       \<and> (\<forall>r \<in> set (db s). status r = Active \<longrightarrow> map_option donationId (active s) = Some (row_id r))
       \<and> (\<forall>a. active s = Some a \<longrightarrow> maybeStartNext s = s)"
proof -
  have o: "owns (db s) (active s)"
    using reachable_owns [OF assms] by (simp add: session_owns_active_def)
  then have 2: "\<forall>r \<in> set (db s). status r = Active \<longrightarrow> map_option donationId (active s) = Some (row_id r)"
    by (simp add: owns_def)
  have 1: "length (filter (\<lambda>r. status r = Active) (db s)) \<le> 1"
  proof (cases "active s")
    case None
    with 2 have "filter (\<lambda>r. status r = Active) (db s) = []"
      by (simp add: filter_empty_conv)
    then show ?thesis by simp
  next
    case (Some a)
    show ?thesis
    proof (rule at_most_one_with_id [where i = "donationId a"])
      show "distinct (map row_id (db s))" using o by (simp add: owns_def)
      show "\<forall>r \<in> set (db s). status r = Active \<longrightarrow> row_id r = donationId a"
        using 2 Some by simp
    qed
  qed
  have 3: "\<forall>a. active s = Some a \<longrightarrow> maybeStartNext s = s"
    by (simp add: maybeStartNext_closed)
  from 1 2 3 show ?thesis by blast
qed

theorem one_session_one_active_row_witness:
  "reachable started_example
   \<and> map status (db started_example) = [Active, Waiting]
   \<and> length (filter (\<lambda>r. status r = Active) (db started_example)) \<le> 1
   \<and> map_option donationId (active started_example) = Some 1
   \<and> maybeStartNext started_example = started_example"
proof -
  note th = one_session_one_active_row [OF started_example_reachable]
  have 1: "length (filter (\<lambda>r. status r = Active) (db started_example)) \<le> 1"
    by (rule th [THEN conjunct1])
  obtain a where a: "active started_example = Some a" "donationId a = 1"
    by (simp add: started_example_def)
  have 2: "maybeStartNext started_example = started_example"
    by (rule th [THEN conjunct2, THEN conjunct2, rule_format, OF a(1)])
  have 3: "map status (db started_example) = [Active, Waiting]"
    by (simp add: started_example_def)
  from a have 4: "map_option donationId (active started_example) = Some 1" by simp
  from started_example_reachable 1 2 3 4 show ?thesis by blast
qed

section \<open>Credits are pulsed once\<close>

lemma queue_example_first:
  "distinct (map row_id (db (boot queue_example 0)))"
  "active (boot queue_example 0) = None"
  "find (\<lambda>q. status q = Waiting) (listQueue (maybeStartNext_cleanup (db (boot queue_example 0))))
   = Some (hd queue_example)"
  "credits_pulsed (hd queue_example) = 0"
  "credits_total (hd queue_example) - credits_used (hd queue_example) = 2"
  "pending_pulses (boot queue_example 0) = 0"
  by (simp_all add: boot_def recoverAfterRestart_def queue_example_def pending_pulses_def
      ledger_defs sched_defs)

text \<open>
  Claim C5. When \<open>maybeStartNext\<close> starts the row \<open>nxt\<close> of a table with unique ids, it
  schedules one credit pulse per remaining credit and sets the row's \<open>credits_pulsed\<close> if
  the flag was unset, and schedules no pulse and leaves the flag alone if it was set; either
  way the flag is set afterwards. A scheduled pulse, when its timer fires, pulses the
  actuator once and does nothing else. Nothing clears a flag that is set: no step of the
  scheduler, not \<open>requeueToEnd\<close>, and no step of the whole process (scheduler, timers,
  new intents, and every operation of the admin router, the requeue among them) as long as
  the participant's row is not deleted. So after any number of such steps the activation
  of a participant whose flag was set schedules no pulse.
\<close>

theorem credits_pulsed_once:
  "(\<forall>nxt. distinct (map row_id (db s)) \<and> active s = None
          \<and> find (\<lambda>q. status q = Waiting) (listQueue (maybeStartNext_cleanup (db s))) = Some nxt \<longrightarrow>
      map_option donationId (active (maybeStartNext s)) = Some (row_id nxt)
      \<and> pending_pulses (maybeStartNext s)
          = pending_pulses s
            + (if credits_pulsed nxt = 0 then nat (credits_total nxt - credits_used nxt) else 0)
      \<and> db (maybeStartNext s)
          = (if credits_pulsed nxt = 0
             then markCreditsPulsed (row_id nxt)
                    (setDonationStatus (row_id nxt) Active (maybeStartNext_cleanup (db s)))
             else setDonationStatus (row_id nxt) Active (maybeStartNext_cleanup (db s)))
      \<and> flag_set (row_id nxt) (db (maybeStartNext s)))
   \<and> run_callback CreditPulse s = emit (GpioPulse ''credit'' 200) s
   \<and> (\<forall>s'. scheduler_step\<^sup>*\<^sup>* s s' \<longrightarrow> keeps_flag (db s) (db s'))
   \<and> (\<forall>i t. flag_set i (db s) \<longrightarrow> flag_set i (requeueToEnd i t (db s)))
   \<and> (\<forall>s' i. flag_set i (db s) \<and> (step_keeping i)\<^sup>*\<^sup>* s s' \<longrightarrow> flag_set i (db s'))
   \<and> (\<forall>s' i nxt. flag_set i (db s) \<and> (step_keeping i)\<^sup>*\<^sup>* s s' \<and> active s' = None
          \<and> find (\<lambda>q. status q = Waiting) (listQueue (maybeStartNext_cleanup (db s'))) = Some nxt
          \<and> row_id nxt = i \<longrightarrow>
        map_option donationId (active (maybeStartNext s')) = Some i
        \<and> pending_pulses (maybeStartNext s') = pending_pulses s')"
proof (intro conjI allI impI)
  fix nxt
  assume a: "distinct (map row_id (db s)) \<and> active s = None
          \<and> find (\<lambda>q. status q = Waiting) (listQueue (maybeStartNext_cleanup (db s))) = Some nxt"
  then have d: "distinct (map row_id (db s))" and n: "active s = None"
    and f: "find (\<lambda>q. status q = Waiting) (listQueue (maybeStartNext_cleanup (db s))) = Some nxt"
    by simp_all
  have pos: "credits_total nxt - credits_used nxt > 0"
    using cleanup_no_zero_waiting [of nxt "db s"] find_waiting_in_table [OF f] by simp
  show "map_option donationId (active (maybeStartNext s)) = Some (row_id nxt)"
    using n f by (simp add: maybeStartNext_active)
  show "pending_pulses (maybeStartNext s)
          = pending_pulses s
            + (if credits_pulsed nxt = 0 then nat (credits_total nxt - credits_used nxt) else 0)"
    using pending_pulses_maybeStartNext [OF n f] pulses_due_found [OF f] by simp
  show "db (maybeStartNext s)
          = (if credits_pulsed nxt = 0
             then markCreditsPulsed (row_id nxt)
                    (setDonationStatus (row_id nxt) Active (maybeStartNext_cleanup (db s)))
             else setDonationStatus (row_id nxt) Active (maybeStartNext_cleanup (db s)))"
    using n f pos by (simp add: maybeStartNext_db)
  have "nxt \<in> set (maybeStartNext_cleanup (db s))"
    using find_waiting_in_table [OF f] by simp
  then have "row_id nxt \<in> row_id ` set (maybeStartNext_cleanup (db s))"
    by (rule imageI)
  then have "row_id nxt \<in> set (map row_id (db s))"
    by (simp only: set_map [symmetric] ids_cleanup)
  then have "row_id nxt \<in> set (map row_id (db (maybeStartNext s)))"
    by (simp only: keeps_flag_ids [OF keeps_flag_maybeStartNext])
  then have "\<exists>r \<in> set (db (maybeStartNext s)). row_id r = row_id nxt"
    by auto
  with activation_flag_set [OF f n d] show "flag_set (row_id nxt) (db (maybeStartNext s))"
    by (simp add: flag_set_def)
next
  show "run_callback CreditPulse s = emit (GpioPulse ''credit'' 200) s"
    by (simp add: creditPulseCallback_def)
next
  fix s' assume "scheduler_step\<^sup>*\<^sup>* s s'"
  then show "keeps_flag (db s) (db s')" by (rule keeps_flag_scheduler_steps)
next
  fix i t assume f: "flag_set i (db s)"
  have ids: "map row_id (requeueToEnd i t (db s)) = map row_id (db s)"
    by (rule keeps_flag_ids [OF keeps_flag_requeue])
  from f have "i \<in> set (map row_id (db s))" by (auto simp: flag_set_def)
  then have "i \<in> set (map row_id (requeueToEnd i t (db s)))" by (simp only: ids)
  then have "\<exists>r \<in> set (requeueToEnd i t (db s)). row_id r = i" by auto
  moreover have "credits_pulsed r' \<noteq> 0" if "r' \<in> set (requeueToEnd i t (db s))" "row_id r' = i" for r'
    using keeps_flag_at [OF keeps_flag_requeue _ that] f by (simp add: flag_set_def)
  ultimately show "flag_set i (requeueToEnd i t (db s))"
    by (simp add: flag_set_def)
next
  fix s' i assume "flag_set i (db s) \<and> (step_keeping i)\<^sup>*\<^sup>* s s'"
  then show "flag_set i (db s')" using flag_set_steps by blast
next
  fix s' i nxt
  assume h: "flag_set i (db s) \<and> (step_keeping i)\<^sup>*\<^sup>* s s' \<and> active s' = None
          \<and> find (\<lambda>q. status q = Waiting) (listQueue (maybeStartNext_cleanup (db s'))) = Some nxt
          \<and> row_id nxt = i"
  then have 1: "flag_set i (db s)" and 2: "(step_keeping i)\<^sup>*\<^sup>* s s'" and 3: "active s' = None"
    and 4: "find (\<lambda>q. status q = Waiting) (listQueue (maybeStartNext_cleanup (db s'))) = Some nxt"
    and 5: "row_id nxt = i"
    by simp_all
  show "map_option donationId (active (maybeStartNext s')) = Some i"
    by (rule no_more_pulses(2) [OF 1 2 3 4 5])
  show "pending_pulses (maybeStartNext s') = pending_pulses s'"
    by (rule no_more_pulses(1) [OF 1 2 3 4 5])
qed

theorem credits_pulsed_once_witness:
  "active (boot queue_example 0) = None
   \<and> credits_pulsed (hd queue_example) = 0
   \<and> map_option donationId (active (maybeStartNext (boot queue_example 0))) = Some (row_id (hd queue_example))
   \<and> pending_pulses (maybeStartNext (boot queue_example 0)) = 2
   \<and> maybeStartNext (boot queue_example 0) = started_example
   \<and> flag_set 1 (db started_example)
   \<and> (step_keeping 1)\<^sup>*\<^sup>* started_example requeued_example
   \<and> map status (db requeued_example) = [Waiting, Done]
   \<and> flag_set 1 (db requeued_example)
   \<and> active requeued_example = None
   \<and> map_option donationId (active (maybeStartNext requeued_example)) = Some 1
   \<and> pending_pulses (maybeStartNext requeued_example) = pending_pulses requeued_example"
proof -
  note a = credits_pulsed_once [of "boot queue_example 0", THEN conjunct1, rule_format,
      of "hd queue_example", OF conjI [OF queue_example_first(1) conjI [OF queue_example_first(2,3)]]]
  have 1: "map_option donationId (active (maybeStartNext (boot queue_example 0))) = Some (row_id (hd queue_example))"
    by (rule a [THEN conjunct1])
  have 2: "pending_pulses (maybeStartNext (boot queue_example 0)) = 2"
    using a [THEN conjunct2, THEN conjunct1] by (simp add: queue_example_first(4,5,6))
  note t = credits_pulsed_once [of started_example, THEN conjunct2, THEN conjunct2, THEN conjunct2,
      THEN conjunct2]
  have 3: "flag_set 1 (db requeued_example)"
    by (rule t [THEN conjunct1, rule_format, OF conjI [OF started_flag requeue_run]])
  note b = t [THEN conjunct2, rule_format, of 1 requeued_example "hd (db requeued_example)",
      OF conjI [OF started_flag conjI [OF requeue_run conjI [OF requeued_example_facts(4)
        conjI [OF requeued_example_facts(6,7)]]]]]
  have 4: "map_option donationId (active (maybeStartNext requeued_example)) = Some 1"
    by (rule b [THEN conjunct1])
  have 5: "pending_pulses (maybeStartNext requeued_example) = pending_pulses requeued_example"
    by (rule b [THEN conjunct2])
  from 1 2 3 4 5 queue_example_first(2,4) started_example_reached started_flag requeue_run
    requeued_example_facts(2,4)
  show ?thesis by blast
qed


section \<open>A credit is consumed once\<close>

lemma second_cycle_value:
  "second_cycle_example =
     \<lparr>db = [\<lparr>row_id = 1, intent_id = Some ''a'', credits_total = 2, credits_used = 1,
               credits_pulsed = 1, status = Active, created_at = 10\<rparr>,
            \<lparr>row_id = 2, intent_id = Some ''b'', credits_total = 1, credits_used = 0,
               credits_pulsed = 0, status = Waiting, created_at = 20\<rparr>],
      active = Some \<lparr>donationId = 1, creditsRemaining = 1, timer = Some 3, timerStarted = False,
                      creditEndsAt = None, firstMoveDeadline = 50000, firstMoveTimer = Some 4,
                      hasMoved = False, grabUsed = False, creditSeq = 1, creditConsumed = True\<rparr>,
      timers = [\<lparr>handle = 0, due = 0, run = CreditPulse\<rparr>,
                \<lparr>handle = 1, due = 400, run = CreditPulse\<rparr>,
                \<lparr>handle = 4, due = 50000, run = FirstMoveTimeout\<rparr>],
      next_handle = 5, now = 35000,
      trace = [QueueUpdate (Some 1) None (Some 15000) [(1, 2, Active, 1), (2, 1, Waiting, 2)],
               PlayerStart 1 2 15000, CreditStart 1 (Some 35000) 2,
               QueueUpdate (Some 1) None (Some 50000) [(1, 1, Active, 1), (2, 1, Waiting, 2)]]\<rparr>"
  by (simp add: second_cycle_example_def started_example_def ledger_defs sched_defs)

lemma second_cycle_reachable: "reachable second_cycle_example"
proof -
  define m where "m = startCreditTimerIfNeeded started_example"
  have v: "timers m = [\<lparr>handle = 0, due = 0, run = CreditPulse\<rparr>,
                       \<lparr>handle = 1, due = 400, run = CreditPulse\<rparr>,
                       \<lparr>handle = 3, due = 35000, run = CreditExpiry 1\<rparr>]" "now m = 0"
    by (simp_all add: m_def started_example_def sched_defs)
  have 1: "reachable m"
    unfolding m_def
    by (rule reachable.stepped [OF started_example_reachable])
       (rule step.scheduler, rule scheduler_step.move)
  have 2: "reachable (m\<lparr>now := 35000\<rparr>)"
    by (rule reachable.stepped [OF 1], rule step.scheduler, rule scheduler_step.clock)
       (simp add: v)
  have "scheduler_step (m\<lparr>now := 35000\<rparr>)
          (fire (handle \<lparr>handle = 3, due = 35000, run = CreditExpiry 1\<rparr>) (m\<lparr>now := 35000\<rparr>))"
    by (rule scheduler_step.timer) (simp_all add: v)
  then have "step (m\<lparr>now := 35000\<rparr>) second_cycle_example"
    by (simp add: second_cycle_example_def m_def step.scheduler)
  from reachable.stepped [OF 2 this] show ?thesis .
qed

lemma second_cycle_facts:
  "map credits_used (useOneCredit 1 (db second_cycle_example)) = [2, 0]"
  "ended 1 second_cycle_example = 0"
  "getDonationById 1 (db second_cycle_example) = Some (hd (db second_cycle_example))"
  "credits_used (hd (db second_cycle_example)) = 1"
  "credits_total (hd (db second_cycle_example)) = 2"
  by (simp_all add: second_cycle_value ended_def ledger_defs)

lemma grabbed_example_fresh:
  "map_option creditConsumed (active grabbed_example) = Some False"
  by (simp add: grabbed_example_def started_example_def ledger_defs sched_defs)

text \<open>
  Claim C2. \<open>consumeOneCreditSafely\<close> returns the state unchanged when \<open>creditConsumed\<close>
  is set; otherwise it sets the flag, calls \<open>useOneCredit\<close> once for the participant (which
  adds one to \<open>credits_used\<close> of a row below its cap) and takes one from
  \<open>creditsRemaining\<close>; a second call right after the first does nothing. For a session
  with one credit left and a fresh cycle, in a state whose pending timers have handles that
  were handed out before: the move sets the credit timer, with the next handle and the epoch
  one ahead; the grab is accepted, clears that timer and sets the grab-finish timer, with the
  handle after it and the epoch two ahead. The superseded credit timer is then no longer
  pending, so firing its handle does nothing, and its callback would find its epoch stale.
  Firing the grab-finish timer leaves \<open>credits_used\<close> as one \<open>useOneCredit\<close> makes it,
  announces the end of the session once, and leaves the participant's row done; after that
  neither timer is pending and neither callback does anything.
\<close>

theorem credit_consumed_once:
  "(\<forall>a. active s = Some a \<and> creditConsumed a \<longrightarrow> consumeOneCreditSafely s = (s, False))
   \<and> (\<forall>a. active s = Some a \<and> \<not> creditConsumed a \<longrightarrow>
         consumeOneCreditSafely s
         = (s\<lparr>db := useOneCredit (donationId a) (db s),
               active := Some (a\<lparr>creditConsumed := True, creditsRemaining := creditsRemaining a - 1\<rparr>)\<rparr>,
            True))
   \<and> consumeOneCreditSafely (fst (consumeOneCreditSafely s)) = (fst (consumeOneCreditSafely s), False)
   \<and> (\<forall>i row. getDonationById i (db s) = Some row \<and> credits_used row < credits_total row \<longrightarrow>
         getDonationById i (useOneCredit i (db s)) = Some (row\<lparr>credits_used := credits_used row + 1\<rparr>))
   \<and> (\<forall>a. active s = Some a \<and> creditsRemaining a = 1 \<and> \<not> timerStarted a \<and> \<not> grabUsed a
          \<and> (\<forall>t \<in> set (timers s). handle t < next_handle s) \<longrightarrow>
         map_option timer (active (startCreditTimerIfNeeded s)) = Some (Some (next_handle s))
         \<and> find (\<lambda>t. handle t = next_handle s) (timers (startCreditTimerIfNeeded s))
             = Some \<lparr>handle = next_handle s, due = now s + CREDIT_MS,
                      run = CreditExpiry (creditSeq a + 1)\<rparr>
         \<and> snd (handleGrabIfAllowed (startCreditTimerIfNeeded s)) = Ok
         \<and> map_option creditSeq (active (move_then_grab s)) = Some (creditSeq a + 2)
         \<and> map_option timer (active (move_then_grab s)) = Some (Some (Suc (next_handle s)))
         \<and> find (\<lambda>t. handle t = Suc (next_handle s)) (timers (move_then_grab s))
             = Some \<lparr>handle = Suc (next_handle s), due = now s + GRAB_FINISH_MS,
                      run = GrabFinish (creditSeq a + 2)\<rparr>
         \<and> find (\<lambda>t. handle t = next_handle s) (timers (move_then_grab s)) = None
         \<and> fire (next_handle s) (move_then_grab s) = move_then_grab s
         \<and> creditExpiryCallback (creditSeq a + 1) (move_then_grab s) = move_then_grab s
         \<and> map credits_used (db (grab_finished s)) = map credits_used (useOneCredit (donationId a) (db s))
         \<and> ended (donationId a) (grab_finished s) = ended (donationId a) s + 1
         \<and> fire (next_handle s) (grab_finished s) = grab_finished s
         \<and> fire (Suc (next_handle s)) (grab_finished s) = grab_finished s
         \<and> creditExpiryCallback (creditSeq a + 1) (grab_finished s) = grab_finished s
         \<and> grabFinishCallback (creditSeq a + 2) (grab_finished s) = grab_finished s
         \<and> (distinct (map row_id (db s)) \<longrightarrow>
              (\<forall>r \<in> set (db (grab_finished s)). row_id r = donationId a \<longrightarrow> status r = Done)))"
proof (intro conjI allI impI)
  fix a assume "active s = Some a \<and> creditConsumed a"
  then show "consumeOneCreditSafely s = (s, False)"
    by (simp add: consumeOneCreditSafely_def)
next
  fix a assume "active s = Some a \<and> \<not> creditConsumed a"
  then show "consumeOneCreditSafely s
         = (s\<lparr>db := useOneCredit (donationId a) (db s),
               active := Some (a\<lparr>creditConsumed := True, creditsRemaining := creditsRemaining a - 1\<rparr>)\<rparr>,
            True)"
    by (simp add: consumeOneCreditSafely_def)
next
  show "consumeOneCreditSafely (fst (consumeOneCreditSafely s)) = (fst (consumeOneCreditSafely s), False)"
  proof (cases "active s")
    case None
    then show ?thesis by (simp add: consumeOneCreditSafely_def)
  next
    case (Some a)
    then show ?thesis by (cases "creditConsumed a") (simp_all add: consumeOneCreditSafely_def)
  qed
next
  fix i row assume "getDonationById i (db s) = Some row \<and> credits_used row < credits_total row"
  then show "getDonationById i (useOneCredit i (db s)) = Some (row\<lparr>credits_used := credits_used row + 1\<rparr>)"
    by (simp add: useOneCredit_below_cap)
next
  fix a assume h: "active s = Some a \<and> creditsRemaining a = 1 \<and> \<not> timerStarted a \<and> \<not> grabUsed a
          \<and> (\<forall>t \<in> set (timers s). handle t < next_handle s)"
  then have a: "active s = Some a" and one: "creditsRemaining a = 1"
    and nt: "\<not> timerStarted a" and ng: "\<not> grabUsed a"
    and fr: "\<forall>t \<in> set (timers s). handle t < next_handle s"
    by simp_all
  note m = move_grab_fire [OF a one nt ng fr]
  show "map_option timer (active (startCreditTimerIfNeeded s)) = Some (Some (next_handle s))"
    by (rule m(1))
  show "find (\<lambda>t. handle t = next_handle s) (timers (startCreditTimerIfNeeded s))
             = Some \<lparr>handle = next_handle s, due = now s + CREDIT_MS,
                      run = CreditExpiry (creditSeq a + 1)\<rparr>"
    by (rule m(2))
  show "snd (handleGrabIfAllowed (startCreditTimerIfNeeded s)) = Ok" by (rule m(3))
  show "map_option creditSeq (active (move_then_grab s)) = Some (creditSeq a + 2)" by (rule m(4))
  show "map_option timer (active (move_then_grab s)) = Some (Some (Suc (next_handle s)))"
    by (rule m(5))
  show "find (\<lambda>t. handle t = Suc (next_handle s)) (timers (move_then_grab s))
             = Some \<lparr>handle = Suc (next_handle s), due = now s + GRAB_FINISH_MS,
                      run = GrabFinish (creditSeq a + 2)\<rparr>"
    by (rule m(6))
  show "find (\<lambda>t. handle t = next_handle s) (timers (move_then_grab s)) = None" by (rule m(7))
  show "fire (next_handle s) (move_then_grab s) = move_then_grab s" by (rule m(8))
  show "creditExpiryCallback (creditSeq a + 1) (move_then_grab s) = move_then_grab s" by (rule m(9))
  show "map credits_used (db (grab_finished s)) = map credits_used (useOneCredit (donationId a) (db s))"
    by (rule m(10))
  show "ended (donationId a) (grab_finished s) = ended (donationId a) s + 1" by (rule m(11))
  show "fire (next_handle s) (grab_finished s) = grab_finished s" by (rule m(13))
  show "fire (Suc (next_handle s)) (grab_finished s) = grab_finished s" by (rule m(14))
  show "creditExpiryCallback (creditSeq a + 1) (grab_finished s) = grab_finished s" by (rule m(15))
  show "grabFinishCallback (creditSeq a + 2) (grab_finished s) = grab_finished s" by (rule m(16))
  assume "distinct (map row_id (db s))"
  with m(12) show "\<forall>r \<in> set (db (grab_finished s)). row_id r = donationId a \<longrightarrow> status r = Done"
    by (rule mp)
qed

theorem credit_consumed_once_witness:
  "reachable second_cycle_example
   \<and> map_option creditConsumed (active second_cycle_example) = Some True
   \<and> consumeOneCreditSafely second_cycle_example = (second_cycle_example, False)
   \<and> map_option creditConsumed (active grabbed_example) = Some False
   \<and> snd (consumeOneCreditSafely grabbed_example) = True
   \<and> map_option credits_used (getDonationById 1 (useOneCredit 1 (db second_cycle_example))) = Some 2
   \<and> map_option creditsRemaining (active second_cycle_example) = Some 1
   \<and> map handle (timers second_cycle_example) = [0, 1, 4]
   \<and> next_handle second_cycle_example = 5
   \<and> snd (handleGrabIfAllowed (startCreditTimerIfNeeded second_cycle_example)) = Ok
   \<and> map_option run (find (\<lambda>t. handle t = 5) (timers (startCreditTimerIfNeeded second_cycle_example)))
       = Some (CreditExpiry 2)
   \<and> map_option run (find (\<lambda>t. handle t = 6) (timers (move_then_grab second_cycle_example)))
       = Some (GrabFinish 3)
   \<and> map_option creditSeq (active (move_then_grab second_cycle_example)) = Some 3
   \<and> fire 5 (move_then_grab second_cycle_example) = move_then_grab second_cycle_example
   \<and> grab_finished second_cycle_example = fire 6 (move_then_grab second_cycle_example)
   \<and> map credits_used (db (grab_finished second_cycle_example)) = [2, 0]
   \<and> ended 1 (grab_finished second_cycle_example) = 1
   \<and> fire 5 (grab_finished second_cycle_example) = grab_finished second_cycle_example
   \<and> fire 6 (grab_finished second_cycle_example) = grab_finished second_cycle_example"
proof -
  obtain a where a: "active second_cycle_example = Some a" "creditsRemaining a = 1"
    "\<not> timerStarted a" "\<not> grabUsed a" "creditConsumed a"
    and v: "creditSeq a = 1" "donationId a = 1" "next_handle second_cycle_example = 5"
      "now second_cycle_example = 35000"
    by (simp add: second_cycle_value)
  have hs: "map handle (timers second_cycle_example) = [0, 1, 4]"
    by (simp add: second_cycle_value)
  have fr: "\<forall>t \<in> set (timers second_cycle_example). handle t < next_handle second_cycle_example"
    by (simp add: second_cycle_value)
  have n: "(1::nat) + 1 = 2" "(1::nat) + 2 = 3" "Suc 5 = 6"
    by simp_all
  obtain g where g: "active grabbed_example = Some g" "\<not> creditConsumed g"
    using grabbed_example_fresh by (cases "active grabbed_example") auto
  note th = credit_consumed_once [of second_cycle_example]
  have 1: "consumeOneCreditSafely second_cycle_example = (second_cycle_example, False)"
    by (rule th [THEN conjunct1, rule_format, OF conjI [OF a(1) a(5)]])
  have 2: "snd (consumeOneCreditSafely grabbed_example) = True"
    by (simp add: credit_consumed_once [of grabbed_example, THEN conjunct2, THEN conjunct1,
          rule_format, OF conjI [OF g]])
  have 3: "map_option credits_used (getDonationById 1 (useOneCredit 1 (db second_cycle_example))) = Some 2"
  proof -
    have lt: "credits_used (hd (db second_cycle_example)) < credits_total (hd (db second_cycle_example))"
      by (simp add: second_cycle_facts)
    from th [THEN conjunct2, THEN conjunct2, THEN conjunct2, THEN conjunct1, rule_format,
        OF conjI [OF second_cycle_facts(3) lt]]
    show ?thesis by (simp add: second_cycle_facts)
  qed
  note p = th [THEN conjunct2, THEN conjunct2, THEN conjunct2, THEN conjunct2, rule_format,
      OF conjI [OF a(1) conjI [OF a(2) conjI [OF a(3) conjI [OF a(4) fr]]]], unfolded v n]
  note p2 = p [THEN conjunct2]
  note p3 = p2 [THEN conjunct2]
  note p4 = p3 [THEN conjunct2]
  note p5 = p4 [THEN conjunct2]
  note p6 = p5 [THEN conjunct2]
  note p7 = p6 [THEN conjunct2]
  note p8 = p7 [THEN conjunct2]
  note p9 = p8 [THEN conjunct2]
  note p10 = p9 [THEN conjunct2]
  note p11 = p10 [THEN conjunct2]
  note p12 = p11 [THEN conjunct2]
  note p13 = p12 [THEN conjunct2]
  have 4: "snd (handleGrabIfAllowed (startCreditTimerIfNeeded second_cycle_example)) = Ok"
    by (rule p3 [THEN conjunct1])
  have 5: "map_option run (find (\<lambda>t. handle t = 5) (timers (startCreditTimerIfNeeded second_cycle_example)))
       = Some (CreditExpiry 2)"
    by (simp add: p2 [THEN conjunct1])
  have 6: "map_option run (find (\<lambda>t. handle t = 6) (timers (move_then_grab second_cycle_example)))
       = Some (GrabFinish 3)"
    by (simp add: p6 [THEN conjunct1])
  have 7: "map_option creditSeq (active (move_then_grab second_cycle_example)) = Some 3"
    by (rule p4 [THEN conjunct1])
  have 8: "fire 5 (move_then_grab second_cycle_example) = move_then_grab second_cycle_example"
    by (rule p8 [THEN conjunct1])
  have 9: "map credits_used (db (grab_finished second_cycle_example)) = [2, 0]"
    using p10 [THEN conjunct1] by (simp only: second_cycle_facts)
  have 10: "ended 1 (grab_finished second_cycle_example) = 1"
    using p11 [THEN conjunct1] by (simp only: second_cycle_facts)
  have 11: "fire 5 (grab_finished second_cycle_example) = grab_finished second_cycle_example"
    by (rule p12 [THEN conjunct1])
  have 12: "fire 6 (grab_finished second_cycle_example) = grab_finished second_cycle_example"
    by (rule p13 [THEN conjunct1])
  have 13: "grab_finished second_cycle_example = fire 6 (move_then_grab second_cycle_example)"
    by (simp add: grab_finished_def v)
  have 14: "map_option creditConsumed (active second_cycle_example) = Some True"
    "map_option creditsRemaining (active second_cycle_example) = Some 1"
    using a by simp_all
  from 1 2 3 4 5 6 7 8 9 10 11 12 13 14 hs v(3) grabbed_example_fresh second_cycle_reachable
  show ?thesis by blast
qed


section \<open>The first-move timeout\<close>

text \<open>
  Claim C4, as amended. A pending first-move timer fires for a session that has not moved.
  If the queue holds a waiting row of someone else (on a table with unique ids), the
  session is ended and the timeout is announced with the reason \<open>no_first_move\<close>: no
  \<open>credits_used\<close> and no \<open>created_at\<close> changes, the participant's row is done, the end
  of the session has been announced once, and the session afterwards is that of the earliest
  queued row that is waiting and has a credit left, whose row is then active; if no waiting
  row has a credit left, there is no session afterwards. If the queue holds no waiting row
  of someone else, the table is unchanged and the session is the same but for a new
  deadline and a new first-move timer.
\<close>

theorem first_move_timeout:
  "\<forall>a h t. active s = Some a \<and> \<not> hasMoved a
      \<and> find (\<lambda>t. handle t = h) (timers s) = Some t \<and> run t = FirstMoveTimeout \<longrightarrow>
       (distinct (map row_id (db s))
        \<and> list_ex (\<lambda>q. status q = Waiting \<and> row_id q \<noteq> donationId a) (listQueue (db s)) \<longrightarrow>
          fire h s
            = emit (PlayerTimeout (donationId a) ''no_first_move'')
                (endActivePlayer (s\<lparr>timers := filter (\<lambda>t. handle t \<noteq> h) (timers s)\<rparr>))
          \<and> map credits_used (db (fire h s)) = map credits_used (db s)
          \<and> map created_at (db (fire h s)) = map created_at (db s)
          \<and> (\<forall>r \<in> set (db (fire h s)). row_id r = donationId a \<longrightarrow> status r = Done)
          \<and> ended (donationId a) (fire h s) = ended (donationId a) s + 1
          \<and> map_option donationId (active (fire h s))
              = map_option row_id (nextEligible (setDonationStatus (donationId a) Done (db s)))
          \<and> (\<forall>nxt. nextEligible (setDonationStatus (donationId a) Done (db s)) = Some nxt \<longrightarrow>
                (\<forall>r \<in> set (db (fire h s)). row_id r = row_id nxt \<longrightarrow> status r = Active)))
       \<and> (\<not> list_ex (\<lambda>q. status q = Waiting \<and> row_id q \<noteq> donationId a) (listQueue (db s)) \<longrightarrow>
          fire h s
            = broadcastQueue (scheduleFirstMoveTimeout
                (s\<lparr>timers := filter (\<lambda>t. handle t \<noteq> h) (timers s)\<rparr>))
          \<and> db (fire h s) = db s
          \<and> active (fire h s)
              = Some (a\<lparr>firstMoveDeadline := now s + FIRST_MOVE_MS, firstMoveTimer := Some (next_handle s)\<rparr>)
          \<and> timers (fire h s)
              = timers (clearIfSet (firstMoveTimer a)
                          (s\<lparr>timers := filter (\<lambda>t. handle t \<noteq> h) (timers s)\<rparr>))
                @ [\<lparr>handle = next_handle s, due = now s + FIRST_MOVE_MS, run = FirstMoveTimeout\<rparr>])"
proof (intro conjI allI impI)
  fix a h t
  assume h: "active s = Some a \<and> \<not> hasMoved a
      \<and> find (\<lambda>t. handle t = h) (timers s) = Some t \<and> run t = FirstMoveTimeout"
    and w: "distinct (map row_id (db s))
        \<and> list_ex (\<lambda>q. status q = Waiting \<and> row_id q \<noteq> donationId a) (listQueue (db s))"
  define s0 where "s0 = s\<lparr>timers := filter (\<lambda>t. handle t \<noteq> h) (timers s)\<rparr>"
  from h have f: "fire h s = firstMoveTimeoutCallback s0"
    unfolding s0_def by (simp add: fire_first_move)
  have s0: "db s0 = db s" "ended (donationId a) s0 = ended (donationId a) s"
    by (simp_all add: s0_def)
  from h have a: "active s0 = Some a" and nm: "\<not> hasMoved a" by (simp_all add: s0_def)
  from w have d: "distinct (map row_id (db s0))"
    and l: "list_ex (\<lambda>q. status q = Waiting \<and> row_id q \<noteq> donationId a) (listQueue (db s0))"
    by (simp_all add: s0)
  note e = timeout_ends_session [OF a nm d l, folded f, unfolded s0]
  show "fire h s
            = emit (PlayerTimeout (donationId a) ''no_first_move'')
                (endActivePlayer (s\<lparr>timers := filter (\<lambda>t. handle t \<noteq> h) (timers s)\<rparr>))"
    using e(1) by (simp only: s0_def)
  show "map credits_used (db (fire h s)) = map credits_used (db s)"
    by (rule e(2))
  show "map created_at (db (fire h s)) = map created_at (db s)"
    using s0(1) by (simp add: e(1))
  show "\<forall>r \<in> set (db (fire h s)). row_id r = donationId a \<longrightarrow> status r = Done"
    by (rule e(3))
  show "ended (donationId a) (fire h s) = ended (donationId a) s + 1"
    by (rule e(4))
  show "map_option donationId (active (fire h s))
              = map_option row_id (nextEligible (setDonationStatus (donationId a) Done (db s)))"
    by (rule e(5))
  fix nxt
  assume "nextEligible (setDonationStatus (donationId a) Done (db s)) = Some nxt"
  with e(6) show "\<forall>r \<in> set (db (fire h s)). row_id r = row_id nxt \<longrightarrow> status r = Active"
    by blast
next
  fix a h t
  assume h: "active s = Some a \<and> \<not> hasMoved a
      \<and> find (\<lambda>t. handle t = h) (timers s) = Some t \<and> run t = FirstMoveTimeout"
    and w: "\<not> list_ex (\<lambda>q. status q = Waiting \<and> row_id q \<noteq> donationId a) (listQueue (db s))"
  define s0 where "s0 = s\<lparr>timers := filter (\<lambda>t. handle t \<noteq> h) (timers s)\<rparr>"
  from h have f: "fire h s = firstMoveTimeoutCallback s0"
    unfolding s0_def by (simp add: fire_first_move)
  have s0: "db s0 = db s" "now s0 = now s" "next_handle s0 = next_handle s"
    by (simp_all add: s0_def)
  from h have a: "active s0 = Some a" and nm: "\<not> hasMoved a" by (simp_all add: s0_def)
  from w have l: "\<not> list_ex (\<lambda>q. status q = Waiting \<and> row_id q \<noteq> donationId a) (listQueue (db s0))"
    by (simp add: s0)
  note e = timeout_renews_window [OF a nm l, folded f, unfolded s0]
  show "fire h s
            = broadcastQueue (scheduleFirstMoveTimeout
                (s\<lparr>timers := filter (\<lambda>t. handle t \<noteq> h) (timers s)\<rparr>))"
    using e(1) by (simp only: s0_def)
  show "db (fire h s) = db s"
    by (rule e(2))
  show "active (fire h s)
              = Some (a\<lparr>firstMoveDeadline := now s + FIRST_MOVE_MS, firstMoveTimer := Some (next_handle s)\<rparr>)"
    by (rule e(3))
  show "timers (fire h s)
              = timers (clearIfSet (firstMoveTimer a)
                          (s\<lparr>timers := filter (\<lambda>t. handle t \<noteq> h) (timers s)\<rparr>))
                @ [\<lparr>handle = next_handle s, due = now s + FIRST_MOVE_MS, run = FirstMoveTimeout\<rparr>]"
    using e(4) by (simp only: s0_def)
qed

lemma due_example_session:
  "active due_example
   = Some \<lparr>donationId = 1, creditsRemaining = 2, timer = None, timerStarted = False,
            creditEndsAt = None, firstMoveDeadline = 15000, firstMoveTimer = Some 2,
            hasMoved = False, grabUsed = False, creditSeq = 0, creditConsumed = False\<rparr>"
  "find (\<lambda>t. handle t = 2) (timers due_example)
   = Some \<lparr>handle = 2, due = 15000, run = FirstMoveTimeout\<rparr>"
  "distinct (map row_id (db due_example))"
  "list_ex (\<lambda>q. status q = Waiting \<and> row_id q \<noteq> 1) (listQueue (db due_example))"
  "map_option row_id (nextEligible (setDonationStatus 1 Done (db due_example))) = Some 2"
  "map credits_used (db due_example) = [0, 0]"
  "ended 1 due_example = 0"
  by (simp_all add: due_example_def started_example_def nextEligible_def ended_def ledger_defs)

lemma sole_due_example_session:
  "active sole_due_example
   = Some \<lparr>donationId = 1, creditsRemaining = 2, timer = None, timerStarted = False,
            creditEndsAt = None, firstMoveDeadline = 65000, firstMoveTimer = Some 6,
            hasMoved = False, grabUsed = False, creditSeq = 0, creditConsumed = False\<rparr>"
  "find (\<lambda>t. handle t = 6) (timers sole_due_example)
   = Some \<lparr>handle = 6, due = 65000, run = FirstMoveTimeout\<rparr>"
  "\<not> list_ex (\<lambda>q. status q = Waiting \<and> row_id q \<noteq> 1) (listQueue (db sole_due_example))"
  "next_handle sole_due_example = 7" "now sole_due_example = 65000"
  "map status (db sole_due_example) = [Active, Done]"
  by (simp_all add: sole_due_example_def sole_example_value ledger_defs)

theorem first_move_timeout_witness:
  "map_option hasMoved (active due_example) = Some False
   \<and> map_option run (find (\<lambda>t. handle t = 2) (timers due_example)) = Some FirstMoveTimeout
   \<and> list_ex (\<lambda>q. status q = Waiting \<and> row_id q \<noteq> 1) (listQueue (db due_example))
   \<and> fire 2 due_example = timed_out_example
   \<and> last (trace (fire 2 due_example)) = PlayerTimeout 1 ''no_first_move''
   \<and> map credits_used (db (fire 2 due_example)) = [0, 0]
   \<and> map status (db (fire 2 due_example)) = [Done, Active]
   \<and> ended 1 (fire 2 due_example) = 1
   \<and> map_option donationId (active (fire 2 due_example)) = Some 2
   \<and> map_option hasMoved (active sole_due_example) = Some False
   \<and> map_option run (find (\<lambda>t. handle t = 6) (timers sole_due_example)) = Some FirstMoveTimeout
   \<and> \<not> list_ex (\<lambda>q. status q = Waiting \<and> row_id q \<noteq> 1) (listQueue (db sole_due_example))
   \<and> db (fire 6 sole_due_example) = db sole_due_example
   \<and> map status (db sole_due_example) = [Active, Done]
   \<and> map_option donationId (active (fire 6 sole_due_example)) = Some 1
   \<and> map_option firstMoveDeadline (active (fire 6 sole_due_example)) = Some 80000
   \<and> map_option firstMoveTimer (active (fire 6 sole_due_example)) = Some (Some 7)"
proof -
  define a where "a = \<lparr>donationId = 1, creditsRemaining = 2, timer = None, timerStarted = False,
            creditEndsAt = None, firstMoveDeadline = 15000, firstMoveTimer = Some 2,
            hasMoved = False, grabUsed = False, creditSeq = 0, creditConsumed = False\<rparr>"
  have a: "active due_example = Some a" "\<not> hasMoved a" and i: "donationId a = 1"
    by (simp_all add: a_def due_example_session)
  have run: "run \<lparr>handle = 2, due = 15000, run = FirstMoveTimeout\<rparr> = FirstMoveTimeout"
    "run \<lparr>handle = 6, due = 65000, run = FirstMoveTimeout\<rparr> = FirstMoveTimeout"
    by simp_all
  note p = first_move_timeout [of due_example, rule_format,
      OF conjI [OF a(1) conjI [OF a(2) conjI [OF due_example_session(2) run(1)]]],
      THEN conjunct1, rule_format, unfolded i,
      OF conjI [OF due_example_session(3,4)]]
  have t: "fire 2 due_example = timed_out_example"
    by (simp add: timed_out_example_def)
  have 1: "last (trace (fire 2 due_example)) = PlayerTimeout 1 ''no_first_move''"
    by (simp add: p [THEN conjunct1])
  have 2: "map credits_used (db (fire 2 due_example)) = [0, 0]"
    using p [THEN conjunct2, THEN conjunct1] by (simp only: due_example_session)
  have 3: "ended 1 (fire 2 due_example) = 1"
    using p [THEN conjunct2, THEN conjunct2, THEN conjunct2, THEN conjunct2, THEN conjunct1]
    by (simp only: due_example_session)
  have 4: "map_option donationId (active (fire 2 due_example)) = Some 2"
    using p [THEN conjunct2, THEN conjunct2, THEN conjunct2, THEN conjunct2, THEN conjunct2, THEN conjunct1]
    by (simp only: due_example_session)
  have 5: "map status (db (fire 2 due_example)) = [Done, Active]"
    by (simp add: t timed_out_example_value)
  define b where "b = \<lparr>donationId = 1, creditsRemaining = 2, timer = None, timerStarted = False,
            creditEndsAt = None, firstMoveDeadline = 65000, firstMoveTimer = Some 6,
            hasMoved = False, grabUsed = False, creditSeq = 0, creditConsumed = False\<rparr>"
  have b: "active sole_due_example = Some b" "\<not> hasMoved b" and j: "donationId b = 1"
    by (simp_all add: b_def sole_due_example_session)
  note q = first_move_timeout [of sole_due_example, rule_format,
      OF conjI [OF b(1) conjI [OF b(2) conjI [OF sole_due_example_session(2) run(2)]]],
      THEN conjunct2, rule_format, unfolded j, OF sole_due_example_session(3)]
  have 6: "db (fire 6 sole_due_example) = db sole_due_example"
    by (rule q [THEN conjunct2, THEN conjunct1])
  have 7: "map_option donationId (active (fire 6 sole_due_example)) = Some 1"
    "map_option firstMoveDeadline (active (fire 6 sole_due_example)) = Some 80000"
    "map_option firstMoveTimer (active (fire 6 sole_due_example)) = Some (Some 7)"
    using q [THEN conjunct2, THEN conjunct2, THEN conjunct1]
    by (simp_all add: b_def sole_due_example_session FIRST_MOVE_MS_def)
  have 8: "map_option hasMoved (active due_example) = Some False"
    "map_option hasMoved (active sole_due_example) = Some False"
    "map_option run (find (\<lambda>t. handle t = 2) (timers due_example)) = Some FirstMoveTimeout"
    "map_option run (find (\<lambda>t. handle t = 6) (timers sole_due_example)) = Some FirstMoveTimeout"
    by (simp_all add: due_example_session sole_due_example_session)
  from t 1 2 3 4 5 6 7 8 due_example_session(4) sole_due_example_session(3,6) show ?thesis by blast
qed


text \<open>
  The claim as stated has the next waiting participant activated whenever someone else is
  waiting. In \<open>zero_credit_waiter_example\<close> B is waiting without a credit left: the
  first-move timer of A (handle 2) fires, A is done, B is swept to done, and nobody is in
  session.
\<close>

theorem zero_credit_waiter_not_activated:
  "map_option hasMoved (active zero_credit_waiter_example) = Some False
   \<and> map_option donationId (active zero_credit_waiter_example) = Some 1
   \<and> map status (db zero_credit_waiter_example) = [Active, Waiting]
   \<and> list_ex (\<lambda>q. status q = Waiting \<and> row_id q \<noteq> 1) (listQueue (db zero_credit_waiter_example))
   \<and> map status (db (fire 2 zero_credit_waiter_example)) = [Done, Done]
   \<and> active (fire 2 zero_credit_waiter_example) = None"
  by (simp add: zero_credit_waiter_example_def started_example_def setCreditsUsed_def
      ledger_defs sched_defs)



end
